theory Spec2Isabelle
  imports Complex_Main "HOL-Library.AList"
begin

section \<open>Python values\<close>

text \<open>
  A Python \<open>str\<close> is a sequence of Unicode code points, so a string is a list of
  natural numbers (\<open>len\<close> counts code points, and the symbols removed by \<open>slugify\<close>
  lie outside ASCII). \<open>ascii\<close> embeds an ASCII literal.
\<close>

type_synonym ustr = "nat list"

definition ascii :: "string \<Rightarrow> ustr" where
  "ascii = map of_char"

text \<open>
  What \<open>json.loads\<close> returns: \<open>None\<close>, \<open>bool\<close>, \<open>int\<close>, \<open>float\<close>, \<open>str\<close>,
  \<open>list\<close> and \<open>dict\<close>. A dict keeps its insertion order, so it is an association
  list; \<open>d.get(k)\<close> is \<open>map_of\<close> and \<open>d[k] = v\<close> is \<open>AList.update\<close>, which overwrites
  in place or appends a new key at the end, as Python does. A float is finite (a
  rational), a NaN or an infinity (\<open>True\<close> for the negative one).
\<close>

datatype pyfloat = Finite rat | NaN | Infinity bool

datatype json =
    JNull
  | JBool bool
  | JInt int
  | JFloat pyfloat
  | JStr ustr
  | JList "json list"
  | JDict "(ustr \<times> json) list"

type_synonym pydict = "(ustr \<times> json) list"

datatype pyerror =
    SystemExit_no_dir
  | SystemExit_no_files
  | OSError
  | UnicodeDecodeError
  | UnicodeEncodeError
  | JSONDecodeError
  | AttributeError
  | TypeError
  | ValueError
  | OverflowError

text \<open>
  The script calls library functions whose result is fixed by the Python runtime and
  its Unicode tables, not by this repository: \<open>str.lower\<close>, the white space of
  \<open>str.strip\<close>, \<open>int\<close> on a string, \<open>json.loads\<close> and \<open>json.dumps\<close> (which return or
  raise), and the limit on the digits of an \<open>int\<close> that \<open>str\<close> converts (4300 unless
  configured, 0 for none). They are parameters of the model, and every theorem holds
  for all of them. \<open>lower_at s i\<close> is the lower case of the character at position
  \<open>i\<close> of \<open>s\<close>: up to three code points, which depend on the neighbours for the
  Greek capital sigma.
\<close>

record runtime =
  lower_at :: "ustr \<Rightarrow> nat \<Rightarrow> ustr"
  isspace :: "nat \<Rightarrow> bool"
  int_of_str :: "ustr \<Rightarrow> int option"
  int_max_str_digits :: nat
  json_loads :: "ustr \<Rightarrow> pyerror + json"
  json_dumps :: "json \<Rightarrow> pyerror + ustr"

text \<open>\<open>bool(v)\<close>, as \<open>or\<close> and \<open>if\<close> test it.\<close>

fun truthy :: "json \<Rightarrow> bool" where
  "truthy JNull = False"
| "truthy (JBool b) = b"
| "truthy (JInt i) = (i \<noteq> 0)"
| "truthy (JFloat f) = (f \<noteq> Finite 0)"
| "truthy (JStr s) = (s \<noteq> [])"
| "truthy (JList xs) = (xs \<noteq> [])"
| "truthy (JDict d) = (d \<noteq> [])"

text \<open>\<open>d.get(k)\<close> and \<open>d.get(k, default)\<close>: a missing key gives \<open>None\<close> or the default.\<close>

definition dict_get_default :: "pydict \<Rightarrow> ustr \<Rightarrow> json \<Rightarrow> json" where
  "dict_get_default d k dflt = (case map_of d k of None \<Rightarrow> dflt | Some v \<Rightarrow> v)"

definition dict_get :: "pydict \<Rightarrow> ustr \<Rightarrow> json" where
  "dict_get d k = dict_get_default d k JNull"

definition dict_set :: "pydict \<Rightarrow> ustr \<Rightarrow> json \<Rightarrow> pydict" where
  "dict_set d k v = AList.update k v d"

section \<open>Strings\<close>

text \<open>\<open>s.strip(chars)\<close> removes the leading and the trailing characters of a class.\<close>

definition strip_chars :: "(nat \<Rightarrow> bool) \<Rightarrow> ustr \<Rightarrow> ustr" where
  "strip_chars P s = rev (dropWhile P (rev (dropWhile P s)))"

definition str_strip :: "runtime \<Rightarrow> ustr \<Rightarrow> ustr" where
  "str_strip rt s = strip_chars (isspace rt) s"

text \<open>\<open>s.lower()\<close> maps the positions of the string in order.\<close>

definition str_lower :: "runtime \<Rightarrow> ustr \<Rightarrow> ustr" where
  "str_lower rt s = concat (map (lower_at rt s) [0..<length s])"

text \<open>\<open>s.replace(old, new)\<close> where \<open>old\<close> is one character, as at every call of the script.\<close>

definition replace_char :: "nat \<Rightarrow> ustr \<Rightarrow> ustr \<Rightarrow> ustr" where
  "replace_char old new s = concat (map (\<lambda>c. if c = old then new else [c]) s)"

text \<open>
  \<open>re.sub(r"[C]+", repl, s)\<close> for a character class \<open>C\<close>: every maximal run of
  characters of the class is replaced by \<open>repl\<close>.
\<close>

function sub_runs :: "(nat \<Rightarrow> bool) \<Rightarrow> ustr \<Rightarrow> ustr \<Rightarrow> ustr" where
  "sub_runs P repl [] = []"
| "sub_runs P repl (c # cs) =
     (if P c then repl @ sub_runs P repl (dropWhile P cs) else c # sub_runs P repl cs)"
  by pat_completeness auto
termination
  by (relation "measure (\<lambda>(P, repl, s). length s)")
     (auto simp: length_dropWhile_le less_Suc_eq_le)

definition is_az :: "nat \<Rightarrow> bool" where
  "is_az c = (97 \<le> c \<and> c \<le> 122)"

definition is_09 :: "nat \<Rightarrow> bool" where
  "is_09 c = (48 \<le> c \<and> c \<le> 57)"

text \<open>The class \<open>[^a-z0-9]\<close>, and the underscore.\<close>

definition not_az09 :: "nat \<Rightarrow> bool" where
  "not_az09 c = (\<not> (is_az c \<or> is_09 c))"

definition is_us :: "nat \<Rightarrow> bool" where
  "is_us c = (c = 95)"

section \<open>The script\<close>

subsection \<open>Config\<close>

definition JSON_DIR :: ustr where "JSON_DIR = ascii ''data''"
definition IMG_DIR :: ustr where "IMG_DIR = ascii ''img''"
definition PLACEHOLDER :: ustr where "PLACEHOLDER = ascii ''img/*''"

definition EXTS :: "ustr list" where
  "EXTS = [ascii ''.jpg'', ascii ''.jpeg'', ascii ''.png'', ascii ''.webp'']"

definition SUFFIXES :: "ustr list" where
  "SUFFIXES = [[], ascii ''_2'', ascii ''_3'', ascii ''_4'', ascii ''_5'']"

subsection \<open>slugify\<close>

text \<open>
  The body of \<open>slugify\<close> up to its last line: \<open>text or ""\<close>, \<open>strip\<close>, \<open>lower\<close>, the
  replacement of \<open>&\<close> (38) by \<open>and\<close>, the removal of the registered sign (174), the
  trade mark sign (8482), the right single quotation mark (8217) and the
  apostrophe (39), then the two \<open>re.sub\<close> and \<open>strip("_")\<close>.
\<close>

definition slug_core :: "runtime \<Rightarrow> ustr option \<Rightarrow> ustr" where
  "slug_core rt text =
     (let s = str_lower rt (str_strip rt (case text of None \<Rightarrow> [] | Some t \<Rightarrow> if t \<noteq> [] then t else []));
          s = replace_char 38 (ascii ''and'') s;
          s = replace_char 8482 [] (replace_char 174 [] s);
          s = replace_char 39 [] (replace_char 8217 [] s);
          s = sub_runs not_az09 (ascii ''_'') s;
          s = strip_chars is_us (sub_runs is_us (ascii ''_'') s)
      in s)"

text \<open>The last line, \<open>return s or "unknown"\<close>.\<close>

definition slugify :: "runtime \<Rightarrow> ustr option \<Rightarrow> ustr" where
  "slugify rt text = (let s = slug_core rt text in if s \<noteq> [] then s else ascii ''unknown'')"

subsection \<open>Paths and the filesystem\<close>

text \<open>
  A \<open>pathlib\<close> path (POSIX flavour) is a flag for an absolute path and its parts.
  \<open>Path(s)\<close> splits \<open>s\<close> at \<open>/\<close> (47) and drops the empty parts and the parts
  \<open>.\<close>; \<open>base / s\<close> appends the parts of \<open>s\<close>, unless \<open>s\<close> is absolute and replaces
  \<open>base\<close>; \<open>p.name\<close> is the last part, or the empty string.
\<close>

datatype path = Path (is_absolute: bool) (parts: "ustr list")

fun split_on :: "nat \<Rightarrow> ustr \<Rightarrow> ustr list" where
  "split_on sep [] = [[]]"
| "split_on sep (c # cs) =
     (if c = sep then [] # split_on sep cs
      else (case split_on sep cs of [] \<Rightarrow> [[c]] | p # ps \<Rightarrow> (c # p) # ps))"

definition path_of :: "ustr \<Rightarrow> path" where
  "path_of s =
     Path (s \<noteq> [] \<and> hd s = 47) (filter (\<lambda>p. p \<noteq> [] \<and> p \<noteq> ascii ''.'') (split_on 47 s))"

definition joinpath :: "path \<Rightarrow> ustr \<Rightarrow> path" where
  "joinpath base s =
     (let q = path_of s
      in if is_absolute q then q else Path (is_absolute base) (parts base @ parts q))"

definition path_name :: "path \<Rightarrow> ustr" where
  "path_name p = (if parts p = [] then [] else last (parts p))"

text \<open>
  The state of the filesystem, as \<open>Path.exists\<close> reads it: the answer, or the
  \<open>OSError\<close> that \<open>exists\<close> lets through (a name too long for the filesystem, a
  directory that may not be searched). The script never creates or removes a file,
  so the state is the same at every probe of a run.
\<close>

type_synonym fs = "path \<Rightarrow> pyerror + bool"

text \<open>
  The decimal digits of an \<open>int\<close>, after \<open>-\<close> (45) when negative, and \<open>str(n)\<close>, which
  raises \<open>ValueError\<close> when the digits are more than the limit of the runtime.
\<close>

function dec_digits :: "nat \<Rightarrow> ustr" where
  "dec_digits n = (if n < 10 then [48 + n] else dec_digits (n div 10) @ [48 + n mod 10])"
  by pat_completeness auto
termination
  by (relation "measure (\<lambda>n. n)") auto

declare dec_digits.simps [simp del]

definition str_int :: "int \<Rightarrow> ustr" where
  "str_int i = (if i < 0 then 45 # dec_digits (nat (- i)) else dec_digits (nat i))"

definition py_str :: "runtime \<Rightarrow> int \<Rightarrow> pyerror + ustr" where
  "py_str rt i =
     (if int_max_str_digits rt \<noteq> 0 \<and> int_max_str_digits rt < length (dec_digits (nat \<bar>i\<bar>))
      then Inl ValueError else Inr (str_int i))"

subsection \<open>find\_image\_for\<close>

text \<open>
  The inner loop \<open>for ext in EXTS\<close>, from the extensions still to try, and the outer
  loop \<open>for suf in SUFFIXES\<close>; each returns at the first path that exists, and an
  \<open>exists\<close> that raises ends both. The path returned formats \<open>year\<close> again.
\<close>

fun probe_exts ::
  "runtime \<Rightarrow> fs \<Rightarrow> int \<Rightarrow> path \<Rightarrow> ustr \<Rightarrow> ustr \<Rightarrow> ustr list \<Rightarrow> pyerror + ustr option" where
  "probe_exts rt fs year year_dir base_slug suf [] = Inr None"
| "probe_exts rt fs year year_dir base_slug suf (ext # exts) =
     (let p = joinpath year_dir (base_slug @ suf @ ext)
      in case fs p of
           Inl e \<Rightarrow> Inl e
         | Inr found \<Rightarrow>
             if found
             then (case py_str rt year of
                     Inl e \<Rightarrow> Inl e
                   | Inr ys \<Rightarrow> Inr (Some (ascii ''img/'' @ ys @ ascii ''/'' @ path_name p)))
             else probe_exts rt fs year year_dir base_slug suf exts)"

fun probe_suffixes ::
  "runtime \<Rightarrow> fs \<Rightarrow> int \<Rightarrow> path \<Rightarrow> ustr \<Rightarrow> ustr list \<Rightarrow> pyerror + ustr option" where
  "probe_suffixes rt fs year year_dir base_slug [] = Inr None"
| "probe_suffixes rt fs year year_dir base_slug (suf # sufs) =
     (case probe_exts rt fs year year_dir base_slug suf EXTS of
        Inl e \<Rightarrow> Inl e
      | Inr (Some found) \<Rightarrow> Inr (Some found)
      | Inr None \<Rightarrow> probe_suffixes rt fs year year_dir base_slug sufs)"

definition find_image_for :: "runtime \<Rightarrow> fs \<Rightarrow> int \<Rightarrow> ustr \<Rightarrow> pyerror + ustr option" where
  "find_image_for rt fs year base_slug =
     (case py_str rt year of
        Inl e \<Rightarrow> Inl e
      | Inr ys \<Rightarrow>
          (let year_dir = joinpath (path_of IMG_DIR) ys
           in case fs year_dir of
                Inl e \<Rightarrow> Inl e
              | Inr found \<Rightarrow>
                  if \<not> found then Inr None
                  else probe_suffixes rt fs year year_dir base_slug SUFFIXES))"

subsection \<open>fill\_game\_icon\<close>

text \<open>\<open>a or b\<close>.\<close>

definition py_or :: "json \<Rightarrow> json \<Rightarrow> json" where
  "py_or a b = (if truthy a then a else b)"

text \<open>
  The function mutates \<open>game_obj\<close> and returns nothing; the model returns the mutated
  dict. \<open>.strip()\<close> exists on a \<open>str\<close> only, so a name that is neither false nor a
  string raises \<open>AttributeError\<close>; that error and an error of \<open>find_image_for\<close> come
  before any assignment. \<open>img_path if img_path else PLACEHOLDER\<close> tests the truth of
  an optional string.
\<close>

definition fill_game_icon :: "runtime \<Rightarrow> fs \<Rightarrow> int \<Rightarrow> pydict \<Rightarrow> pyerror + pydict" where
  "fill_game_icon rt fs year game_obj =
     (case py_or (dict_get game_obj (ascii ''game_name'')) (JStr []) of
        JStr s \<Rightarrow>
          (let name = str_strip rt s
           in if name = [] then Inr (dict_set game_obj (ascii ''icon_url'') (JStr PLACEHOLDER))
              else
                (let base_slug = slugify rt (Some name)
                 in case find_image_for rt fs year base_slug of
                      Inl e \<Rightarrow> Inl e
                    | Inr img_path \<Rightarrow>
                        Inr (dict_set game_obj (ascii ''icon_url'')
                          (JStr (case img_path of
                                   None \<Rightarrow> PLACEHOLDER
                                 | Some found \<Rightarrow>
                                     if found \<noteq> [] then found else PLACEHOLDER)))))
      | _ \<Rightarrow> Inl AttributeError)"

subsection \<open>main\<close>

text \<open>\<open>int(v)\<close>: a float is truncated towards zero.\<close>

definition trunc :: "rat \<Rightarrow> int" where
  "trunc r = (if r < 0 then - \<lfloor>- r\<rfloor> else \<lfloor>r\<rfloor>)"

fun py_int :: "runtime \<Rightarrow> json \<Rightarrow> pyerror + int" where
  "py_int rt JNull = Inl TypeError"
| "py_int rt (JBool b) = Inr (if b then 1 else 0)"
| "py_int rt (JInt i) = Inr i"
| "py_int rt (JFloat (Finite r)) = Inr (trunc r)"
| "py_int rt (JFloat NaN) = Inl ValueError"
| "py_int rt (JFloat (Infinity neg)) = Inl OverflowError"
| "py_int rt (JStr s) = (case int_of_str rt s of None \<Rightarrow> Inl ValueError | Some i \<Rightarrow> Inr i)"
| "py_int rt (JList xs) = Inl TypeError"
| "py_int rt (JDict d) = Inl TypeError"

text \<open>
  \<open>for x in v\<close>: the items of a list, the keys of a dict, the characters of a string;
  nothing else that JSON holds can be iterated.
\<close>

fun iterate :: "json \<Rightarrow> pyerror + json list" where
  "iterate (JList xs) = Inr xs"
| "iterate (JDict d) = Inr (map (\<lambda>kv. JStr (fst kv)) d)"
| "iterate (JStr s) = Inr (map (\<lambda>c. JStr [c]) s)"
| "iterate _ = Inl TypeError"

text \<open>
  The loop \<open>for nom in nominees\<close>, with the flag \<open>changed\<close> as it stands when the loop
  reaches the rest of the list. It returns the list with its dicts mutated, and the
  flag.
\<close>

fun visit_nominees ::
  "runtime \<Rightarrow> fs \<Rightarrow> int \<Rightarrow> json list \<Rightarrow> bool \<Rightarrow> pyerror + json list \<times> bool" where
  "visit_nominees rt fs year [] changed = Inr ([], changed)"
| "visit_nominees rt fs year (JDict nom # noms) changed =
     (let before = dict_get nom (ascii ''icon_url'')
      in case fill_game_icon rt fs year nom of
           Inl e \<Rightarrow> Inl e
         | Inr nom' \<Rightarrow>
             (case visit_nominees rt fs year noms
                     (if dict_get nom' (ascii ''icon_url'') \<noteq> before then True else changed) of
                Inl e \<Rightarrow> Inl e
              | Inr (noms', changed') \<Rightarrow> Inr (JDict nom' # noms', changed')))"
| "visit_nominees rt fs year (nom # noms) changed =
     (case visit_nominees rt fs year noms changed of
        Inl e \<Rightarrow> Inl e
      | Inr (noms', changed') \<Rightarrow> Inr (nom # noms', changed'))"

text \<open>
  The body of \<open>for award in ...\<close>, in its two parts. \<open>award.get\<close> raises
  \<open>AttributeError\<close> on anything but a dict. First the winner: when it is a dict it is
  filled in place, and \<open>changed\<close> is set if its \<open>icon_url\<close> differs from the one
  before.
\<close>

definition visit_winner ::
  "runtime \<Rightarrow> fs \<Rightarrow> int \<Rightarrow> pydict \<Rightarrow> bool \<Rightarrow> pyerror + pydict \<times> bool" where
  "visit_winner rt fs year a changed =
     (case dict_get a (ascii ''winner'') of
        JDict winner \<Rightarrow>
          (let before = dict_get winner (ascii ''icon_url'')
           in case fill_game_icon rt fs year winner of
                Inl e \<Rightarrow> Inl e
              | Inr winner' \<Rightarrow>
                  Inr (dict_set a (ascii ''winner'') (JDict winner'),
                       if dict_get winner' (ascii ''icon_url'') \<noteq> before then True
                       else changed))
      | _ \<Rightarrow> Inr (a, changed))"

text \<open>
  Then the nominees. \<open>nominees\<close> is the award's own list when that is true, and a
  new empty list otherwise; only the award's own list is part of the award
  afterwards. Nominees that are not a list are passed over.
\<close>

definition visit_award ::
  "runtime \<Rightarrow> fs \<Rightarrow> int \<Rightarrow> json \<Rightarrow> bool \<Rightarrow> pyerror + json \<times> bool" where
  "visit_award rt fs year award changed =
     (case award of
        JDict a \<Rightarrow>
          (case visit_winner rt fs year a changed of
             Inl e \<Rightarrow> Inl e
           | Inr (a1, changed1) \<Rightarrow>
               (case py_or (dict_get a1 (ascii ''nominees'')) (JList []) of
                  JList nominees \<Rightarrow>
                    (case visit_nominees rt fs year nominees changed1 of
                       Inl e \<Rightarrow> Inl e
                     | Inr (nominees', changed2) \<Rightarrow>
                         Inr (JDict (if truthy (dict_get a1 (ascii ''nominees''))
                                     then dict_set a1 (ascii ''nominees'') (JList nominees')
                                     else a1),
                              changed2))
                | _ \<Rightarrow> Inr (JDict a1, changed1)))
      | _ \<Rightarrow> Inl AttributeError)"

text \<open>The loop \<open>for award in data.get("awards", [])\<close>.\<close>

fun visit_awards ::
  "runtime \<Rightarrow> fs \<Rightarrow> int \<Rightarrow> json list \<Rightarrow> bool \<Rightarrow> pyerror + json list \<times> bool" where
  "visit_awards rt fs year [] changed = Inr ([], changed)"
| "visit_awards rt fs year (award # awards) changed =
     (case visit_award rt fs year award changed of
        Inl e \<Rightarrow> Inl e
      | Inr (award', changed1) \<Rightarrow>
          (case visit_awards rt fs year awards changed1 of
             Inl e \<Rightarrow> Inl e
           | Inr (awards', changed2) \<Rightarrow> Inr (award' # awards', changed2)))"

text \<open>
  One parsed file, from \<open>year = int(data.get("year"))\<close> to the end of the loop over
  the awards: the data as mutated, and \<open>changed\<close>. Only a list of awards holds
  objects that the loop can mutate; the keys of a dict and the characters of a
  string are strings, on which \<open>award.get\<close> raises.
\<close>

definition process_data :: "runtime \<Rightarrow> fs \<Rightarrow> json \<Rightarrow> pyerror + json \<times> bool" where
  "process_data rt fs data =
     (case data of
        JDict d \<Rightarrow>
          (case py_int rt (dict_get d (ascii ''year'')) of
             Inl e \<Rightarrow> Inl e
           | Inr year \<Rightarrow>
               (case iterate (dict_get_default d (ascii ''awards'') (JList [])) of
                  Inl e \<Rightarrow> Inl e
                | Inr awards \<Rightarrow>
                    (case visit_awards rt fs year awards False of
                       Inl e \<Rightarrow> Inl e
                     | Inr (awards', changed) \<Rightarrow>
                         Inr (JDict (case map_of d (ascii ''awards'') of
                                       Some (JList xs) \<Rightarrow> dict_set d (ascii ''awards'') (JList awards')
                                     | _ \<Rightarrow> d),
                              changed))))
      | _ \<Rightarrow> Inl AttributeError)"

text \<open>
  What a run changes: the content of the JSON files, the calls of \<open>write_text\<close> that
  returned (file name and text, latest last), the printed lines and the counter
  \<open>changed_files\<close>. A file is known by its name; \<open>Unreadable e\<close> is a file on which
  \<open>read_text\<close> raises \<open>e\<close> (it cannot be opened, or is not UTF-8).
\<close>

datatype file_content = Unreadable pyerror | Text ustr

record run =
  disk :: "ustr \<Rightarrow> file_content"
  writes :: "(ustr \<times> ustr) list"
  stdout :: "ustr list"
  changed_files :: nat

text \<open>
  The calls that act on the outside and may raise. \<open>write_text io fp s\<close> is \<open>None\<close>
  when \<open>fp.write_text(s)\<close> returns, and otherwise the error with the content it
  leaves in the file (empty, when the text cannot be encoded after the file has been
  opened and truncated). \<open>print_error io line\<close> is the error of \<open>print(line)\<close>, if it
  raises, and \<open>resolve_error\<close> the error of \<open>JSON_DIR.resolve()\<close>.
\<close>

record io =
  write_text :: "ustr \<Rightarrow> ustr \<Rightarrow> (pyerror \<times> file_content) option"
  print_error :: "ustr \<Rightarrow> pyerror option"
  resolve_error :: "pyerror option"

text \<open>\<open>print(line)\<close>, in a state.\<close>

definition py_print :: "io \<Rightarrow> ustr \<Rightarrow> run \<Rightarrow> run \<times> pyerror option" where
  "py_print io line st =
     (case print_error io line of
        Some e \<Rightarrow> (st, Some e)
      | None \<Rightarrow> (st\<lparr>stdout := stdout st @ [line]\<rparr>, None))"

text \<open>
  The body of \<open>for fp in files\<close>: the state it ends in, and the error if it raises.
  \<open>json.dumps\<close> is evaluated before \<open>write_text\<close> is called, and the counter is
  incremented before the line is printed.
\<close>

definition process_file :: "runtime \<Rightarrow> fs \<Rightarrow> io \<Rightarrow> ustr \<Rightarrow> run \<Rightarrow> run \<times> pyerror option" where
  "process_file rt fs io fp st =
     (case disk st fp of
        Unreadable e \<Rightarrow> (st, Some e)
      | Text t \<Rightarrow>
          (case json_loads rt t of
             Inl e \<Rightarrow> (st, Some e)
           | Inr data \<Rightarrow>
               (case process_data rt fs data of
                  Inl e \<Rightarrow> (st, Some e)
                | Inr (data', changed) \<Rightarrow>
                    if changed
                    then (case json_dumps rt data' of
                            Inl e \<Rightarrow> (st, Some e)
                          | Inr dump \<Rightarrow>
                              (case write_text io fp dump of
                                 Some (e, left) \<Rightarrow> (st\<lparr>disk := (disk st)(fp := left)\<rparr>, Some e)
                               | None \<Rightarrow>
                                   py_print io (ascii ''[OK] Updated icons in '' @ fp)
                                     (st\<lparr>disk := (disk st)(fp := Text dump),
                                         writes := writes st @ [(fp, dump)],
                                         changed_files := changed_files st + 1\<rparr>)))
                    else py_print io (ascii ''[SKIP] No changes for '' @ fp) st)))"

text \<open>
  The loop over the files. An exception leaves the loop and the script: the run
  ends in the state it had reached, with the error.
\<close>

fun process_files ::
  "runtime \<Rightarrow> fs \<Rightarrow> io \<Rightarrow> ustr list \<Rightarrow> run \<Rightarrow> run \<times> pyerror option" where
  "process_files rt fs io [] st = (st, None)"
| "process_files rt fs io (fp # fps) st =
     (case process_file rt fs io fp st of
        (st', Some e) \<Rightarrow> (st', Some e)
      | (st', None) \<Rightarrow> process_files rt fs io fps st')"

text \<open>
  \<open>main\<close>, from the list of files on: \<open>files\<close> is the value of
  \<open>sorted(JSON_DIR.glob(JSON_GLOB))\<close>, the names of the matching files in order, and
  \<open>disk0\<close> their content when the run starts.
\<close>

definition main ::
  "runtime \<Rightarrow> fs \<Rightarrow> io \<Rightarrow> ustr list \<Rightarrow> (ustr \<Rightarrow> file_content) \<Rightarrow> run \<times> pyerror option" where
  "main rt fs io files disk0 =
     (let st = \<lparr>disk = disk0, writes = [], stdout = [], changed_files = 0\<rparr>
      in case fs (path_of JSON_DIR) of
           Inl e \<Rightarrow> (st, Some e)
         | Inr found \<Rightarrow>
             if \<not> found
             then (st, Some (case resolve_error io of None \<Rightarrow> SystemExit_no_dir | Some e \<Rightarrow> e))
             else if files = [] then (st, Some SystemExit_no_files)
             else (case process_files rt fs io files st of
                     (st', Some e) \<Rightarrow> (st', Some e)
                   | (st', None) \<Rightarrow>
                       py_print io
                         ([10] @ ascii ''Done. Updated '' @ str_int (int (changed_files st'))
                          @ ascii ''/'' @ str_int (int (length files)) @ ascii '' files.'')
                         st'))"

section \<open>A concrete runtime and filesystem\<close>

text \<open>
  A runtime that knows ASCII only, for evaluating the model: the lower case of
  \<open>A\<close> to \<open>Z\<close>, the ASCII white space, \<open>int\<close> of a string of decimal digits, the
  limit of 4300 digits, and a JSON codec that knows the documents of \<open>test_docs\<close> by
  their text: \<open>doc_A\<close>, what the
  driver makes of it, \<open>doc_B\<close> whose year is a string and whose winner is null,
  \<open>doc_C\<close> without a year, \<open>doc_D\<close> whose second award is null, and \<open>doc_E\<close> with a
  note that is a lone surrogate, with what the driver makes of it.
\<close>

definition doc_A :: json where
  "doc_A =
     JDict [(ascii ''year'', JInt 2023),
            (ascii ''awards'',
              JList [JDict [(ascii ''winner'',
                              JDict [(ascii ''game_name'', JStr (ascii ''Red Dead Redemption 2''))]),
                            (ascii ''nominees'',
                              JList [JDict [(ascii ''game_name'', JStr (ascii ''Tom & Jerry'')),
                                            (ascii ''icon_url'', JStr (ascii ''img/*''))],
                                     JStr (ascii ''n/a''),
                                     JDict [(ascii ''game_name'', JStr (ascii '' ''))]])]])]"

definition doc_A_filled :: json where
  "doc_A_filled =
     JDict [(ascii ''year'', JInt 2023),
            (ascii ''awards'',
              JList [JDict [(ascii ''winner'',
                              JDict [(ascii ''game_name'', JStr (ascii ''Red Dead Redemption 2'')),
                                     (ascii ''icon_url'',
                                       JStr (ascii ''img/2023/red_dead_redemption_2.png''))]),
                            (ascii ''nominees'',
                              JList [JDict [(ascii ''game_name'', JStr (ascii ''Tom & Jerry'')),
                                            (ascii ''icon_url'', JStr (ascii ''img/*''))],
                                     JStr (ascii ''n/a''),
                                     JDict [(ascii ''game_name'', JStr (ascii '' '')),
                                            (ascii ''icon_url'', JStr (ascii ''img/*''))]])]])]"

definition doc_B :: json where
  "doc_B =
     JDict [(ascii ''year'', JStr (ascii ''2024'')),
            (ascii ''awards'',
              JList [JDict [(ascii ''winner'', JNull),
                            (ascii ''nominees'',
                              JList [JDict [(ascii ''icon_url'', JStr (ascii ''img/*''))]])]])]"

definition doc_C :: json where
  "doc_C = JDict [(ascii ''awards'', JList [])]"

definition doc_D :: json where
  "doc_D =
     JDict [(ascii ''year'', JInt 2023),
            (ascii ''awards'',
              JList [JDict [(ascii ''winner'',
                              JDict [(ascii ''game_name'', JStr (ascii ''Red Dead Redemption 2''))])],
                     JNull])]"

text \<open>
  A lone surrogate, U+D83D, as \<open>json.loads\<close> makes of its escape. It is kept out
  of the code equations, where numerals are unary.
\<close>

definition lone_surrogate :: nat where "lone_surrogate = 55357"

declare lone_surrogate_def [code del]

definition doc_E :: json where
  "doc_E =
     JDict [(ascii ''year'', JInt 2023),
            (ascii ''awards'',
              JList [JDict [(ascii ''winner'',
                              JDict [(ascii ''game_name'', JStr (ascii ''Red Dead Redemption 2''))])]]),
            (ascii ''note'', JStr [lone_surrogate])]"

definition doc_E_filled :: json where
  "doc_E_filled =
     JDict [(ascii ''year'', JInt 2023),
            (ascii ''awards'',
              JList [JDict [(ascii ''winner'',
                              JDict [(ascii ''game_name'', JStr (ascii ''Red Dead Redemption 2'')),
                                     (ascii ''icon_url'',
                                       JStr (ascii ''img/2023/red_dead_redemption_2.png''))])]]),
            (ascii ''note'', JStr [lone_surrogate])]"

definition test_docs :: "(ustr \<times> json) list" where
  "test_docs =
     [(ascii ''A'', doc_A), (ascii ''A2'', doc_A_filled), (ascii ''B'', doc_B), (ascii ''C'', doc_C),
      (ascii ''D'', doc_D), (ascii ''E'', doc_E), (ascii ''E2 '' @ [lone_surrogate], doc_E_filled)]"

definition test_rt :: runtime where
  "test_rt =
     \<lparr>lower_at = (\<lambda>s i. [if 65 \<le> s ! i \<and> s ! i \<le> 90 then s ! i + 32 else s ! i]),
      isspace = (\<lambda>c. c \<in> set [9, 10, 11, 12, 13, 28, 29, 30, 31, 32]),
      int_of_str = (\<lambda>s. if s \<noteq> [] \<and> list_all is_09 s
                          then Some (foldl (\<lambda>a c. 10 * a + int (c - 48)) 0 s) else None),
      int_max_str_digits = 4300,
      json_loads = (\<lambda>t. case map_of test_docs t of
                            None \<Rightarrow> Inl JSONDecodeError
                          | Some j \<Rightarrow> Inr j),
      json_dumps = (\<lambda>j. case find (\<lambda>kv. snd kv = j) test_docs of
                            Some kv \<Rightarrow> Inr (fst kv)
                          | None \<Rightarrow> Inr (ascii ''{...}''))\<rparr>"

text \<open>
  A filesystem with \<open>data\<close>, \<open>img/2023\<close> and two images in it, on which \<open>exists\<close>
  raises \<open>OSError\<close> for a part of more than 255 characters (the names here are ASCII,
  and 255 bytes is the longest name of the usual filesystems); writing that fails
  on a lone surrogate, which UTF-8 cannot encode, and leaves the file empty; a
  directory of two JSON files, one of three whose second file has no year, one of a
  single file with a null award, and one of a single file with the surrogate.
\<close>

definition test_fs :: fs where
  "test_fs p =
     (if list_ex (\<lambda>part. 255 < length part) (parts p) then Inl OSError
      else Inr (p \<in> set [Path False [ascii ''data''],
                         Path False [ascii ''img'', ascii ''2023''],
                         Path False [ascii ''img'', ascii ''2023'',
                                     ascii ''red_dead_redemption_2.png''],
                         Path False [ascii ''img'', ascii ''2023'',
                                     ascii ''red_dead_redemption_2_2.jpg'']]))"

definition test_io :: io where
  "test_io =
     \<lparr>write_text = (\<lambda>fp s. if list_ex (\<lambda>c. 55296 \<le> c \<and> c \<le> 57343) s
                            then Some (UnicodeEncodeError, Text []) else None),
      print_error = (\<lambda>line. None),
      resolve_error = None\<rparr>"

definition f23 :: ustr where "f23 = ascii ''steam_awards_2023.json''"
definition f24 :: ustr where "f24 = ascii ''steam_awards_2024.json''"
definition f25 :: ustr where "f25 = ascii ''steam_awards_2025.json''"

definition test_disk :: "ustr \<Rightarrow> file_content" where
  "test_disk fp =
     (if fp = f23 then Text (ascii ''A'')
      else if fp = f24 then Text (ascii ''B'')
      else Unreadable OSError)"


definition test_disk_D :: "ustr \<Rightarrow> file_content" where
  "test_disk_D fp = (if fp = f23 then Text (ascii ''D'') else Unreadable OSError)"

definition test_disk_E :: "ustr \<Rightarrow> file_content" where
  "test_disk_E fp = (if fp = f23 then Text (ascii ''E'') else Unreadable OSError)"

section \<open>The words of the specification\<close>

definition slug_char :: "nat \<Rightarrow> bool" where
  "slug_char c = (is_az c \<or> is_09 c \<or> c = 95)"

text \<open>No two neighbours are both underscores.\<close>

fun single_us :: "ustr \<Rightarrow> bool" where
  "single_us (a # b # cs) = (\<not> (a = 95 \<and> b = 95) \<and> single_us (b # cs))"
| "single_us _ = True"

text \<open>
  The candidate file names of a base slug in the order of the specification: the
  suffixes outside, the extensions inside.
\<close>

definition candidates :: "ustr \<Rightarrow> ustr list" where
  "candidates base_slug = concat (map (\<lambda>suf. map (\<lambda>ext. base_slug @ suf @ ext) EXTS) SUFFIXES)"

text \<open>
  The first name of a list that a probe finds: the names are probed in order up to
  the first that exists, and a probe that raises before that ends the search with
  its error.
\<close>

fun first_existing :: "(ustr \<Rightarrow> pyerror + bool) \<Rightarrow> ustr list \<Rightarrow> pyerror + ustr option" where
  "first_existing probe [] = Inr None"
| "first_existing probe (f # fs) =
     (case probe f of
        Inl e \<Rightarrow> Inl e
      | Inr found \<Rightarrow> if found then Inr (Some f) else first_existing probe fs)"

text \<open>
  The game objects that the driver visits, in its order: of each award, the winner
  when it is a dict, then the entries of the list of nominees that are dicts.
\<close>

fun dicts_of :: "json list \<Rightarrow> pydict list" where
  "dicts_of [] = []"
| "dicts_of (JDict d # xs) = d # dicts_of xs"
| "dicts_of (x # xs) = dicts_of xs"

definition nominee_entries :: "pydict \<Rightarrow> json list" where
  "nominee_entries a = (case dict_get a (ascii ''nominees'') of JList noms \<Rightarrow> noms | _ \<Rightarrow> [])"

definition winner_games :: "pydict \<Rightarrow> pydict list" where
  "winner_games a = (case dict_get a (ascii ''winner'') of JDict w \<Rightarrow> [w] | _ \<Rightarrow> [])"

definition award_games :: "json \<Rightarrow> pydict list" where
  "award_games award =
     (case award of
        JDict a \<Rightarrow> winner_games a @ dicts_of (nominee_entries a)
      | _ \<Rightarrow> [])"

definition visited_games :: "json \<Rightarrow> pydict list" where
  "visited_games data =
     (case data of
        JDict d \<Rightarrow>
          (case dict_get_default d (ascii ''awards'') (JList []) of
             JList awards \<Rightarrow> concat (map award_games awards)
           | _ \<Rightarrow> [])
      | _ \<Rightarrow> [])"

text \<open>
  A game object after the record filler (itself, when the filler raises), an entry
  of a list of nominees after the driver, and whether the filler changes the value
  of \<open>icon_url\<close> of a game object.
\<close>

definition filled :: "runtime \<Rightarrow> fs \<Rightarrow> int \<Rightarrow> pydict \<Rightarrow> pydict" where
  "filled rt fs year g = (case fill_game_icon rt fs year g of Inl e \<Rightarrow> g | Inr g' \<Rightarrow> g')"

definition fill_entry :: "runtime \<Rightarrow> fs \<Rightarrow> int \<Rightarrow> json \<Rightarrow> json" where
  "fill_entry rt fs year x = (case x of JDict d \<Rightarrow> JDict (filled rt fs year d) | _ \<Rightarrow> x)"

definition icon_changes :: "runtime \<Rightarrow> fs \<Rightarrow> int \<Rightarrow> pydict \<Rightarrow> bool" where
  "icon_changes rt fs year g =
     (dict_get (filled rt fs year g) (ascii ''icon_url'') \<noteq> dict_get g (ascii ''icon_url''))"

text \<open>
  An \<open>icon_url\<close> as the invariant wants it: the placeholder, or \<open>img/<year>/<file>\<close>
  for a file of that name that exists in the directory of the year.
\<close>

definition icon_ok :: "fs \<Rightarrow> int \<Rightarrow> json \<Rightarrow> bool" where
  "icon_ok fs year v =
     (case v of
        JStr p \<Rightarrow>
          p \<noteq> [] \<and>
          (p = PLACEHOLDER \<or>
           (let pre = ascii ''img/'' @ str_int year @ ascii ''/''
            in take (length pre) p = pre \<and> drop (length pre) p \<noteq> []
               \<and> fs (Path False [ascii ''img'', str_int year, drop (length pre) p]) = Inr True))
      | _ \<Rightarrow> False)"

text \<open>
  Whether the value of \<open>icon_url\<close> of at least one visited game object of a parsed
  file changes.
\<close>

definition doc_changed :: "runtime \<Rightarrow> fs \<Rightarrow> json \<Rightarrow> bool" where
  "doc_changed rt fs data =
     (case data of
        JDict d \<Rightarrow>
          (case py_int rt (dict_get d (ascii ''year'')) of
             Inl e \<Rightarrow> False
           | Inr year \<Rightarrow> (\<exists>g \<in> set (visited_games data). icon_changes rt fs year g))
      | _ \<Rightarrow> False)"

section \<open>The slug normaliser\<close>


lemma sub_runs_set:
  "set (sub_runs P repl s) \<subseteq> set repl \<union> {c \<in> set s. \<not> P c}"
proof (induction P repl s rule: sub_runs.induct)
  case (1 P repl)
  show ?case by simp
next
  case (2 P repl c cs)
  show ?case
  proof (cases "P c")
    case True
    have "set (dropWhile P cs) \<subseteq> set cs" using set_dropWhileD by fastforce
    with True 2 show ?thesis by auto
  next
    case False
    with 2 show ?thesis by auto
  qed
qed

lemma single_us_Cons:
  "single_us (a # s) = ((s \<noteq> [] \<longrightarrow> \<not> (a = 95 \<and> hd s = 95)) \<and> single_us s)"
  by (cases s) simp_all

lemma single_us_sub_runs: "single_us (sub_runs is_us [95] s)"
proof (induction is_us "[95::nat]" s rule: sub_runs.induct)
  case 1
  show ?case by simp
next
  case (2 c cs)
  show ?case
  proof (cases "is_us c")
    case True
    let ?r = "dropWhile is_us cs"
    have ih: "single_us (sub_runs is_us [95] ?r)" using 2 True by simp
    have step: "sub_runs is_us [95] (c # cs) = 95 # sub_runs is_us [95] ?r"
      using True by simp
    have "sub_runs is_us [95] ?r \<noteq> [] \<Longrightarrow> hd (sub_runs is_us [95] ?r) \<noteq> 95"
    proof (cases ?r)
      case Nil
      assume "sub_runs is_us [95] ?r \<noteq> []"
      then show ?thesis unfolding Nil by simp
    next
      case (Cons d ds)
      then have "\<not> is_us d" using hd_dropWhile[of is_us cs] by simp
      then show ?thesis unfolding Cons by (simp add: is_us_def)
    qed
    with ih show ?thesis unfolding step single_us_Cons by blast
  next
    case False
    with 2 show ?thesis by (simp add: single_us_Cons is_us_def)
  qed
qed

lemma single_us_drop: "single_us s \<Longrightarrow> single_us (drop n s)"
proof (induction s arbitrary: n)
  case Nil
  show ?case by simp
next
  case (Cons a s)
  then show ?case by (cases n) (simp_all add: single_us_Cons)
qed

lemma single_us_take: "single_us s \<Longrightarrow> single_us (take n s)"
proof (induction s arbitrary: n)
  case Nil
  show ?case by simp
next
  case (Cons a s)
  show ?case
  proof (cases n)
    case 0
    then show ?thesis by simp
  next
    case (Suc m)
    have "take m s \<noteq> [] \<Longrightarrow> hd (take m s) = hd s \<and> s \<noteq> []"
      by (cases m; cases s) simp_all
    with Cons Suc show ?thesis by (auto simp: single_us_Cons)
  qed
qed

lemma rstrip_take: "rev (dropWhile P (rev s)) = take (length s - length (takeWhile P (rev s))) s"
  by (simp add: dropWhile_eq_drop rev_drop)

lemma strip_chars_eq:
  "strip_chars P s = take (length (dropWhile P s) - length (takeWhile P (rev (dropWhile P s)))) (dropWhile P s)"
  unfolding strip_chars_def by (rule rstrip_take)

lemma single_us_strip: "single_us s \<Longrightarrow> single_us (strip_chars P s)"
  unfolding strip_chars_eq by (simp add: dropWhile_eq_drop single_us_take single_us_drop)

lemma set_strip_chars: "set (strip_chars P s) \<subseteq> set s"
proof
  fix x assume "x \<in> set (strip_chars P s)"
  then have "x \<in> set (dropWhile P (rev (dropWhile P s)))" by (simp add: strip_chars_def)
  then have "x \<in> set (rev (dropWhile P s))" by (rule set_dropWhileD)
  then have "x \<in> set (dropWhile P s)" by simp
  then show "x \<in> set s" by (rule set_dropWhileD)
qed

lemma strip_chars_last: "strip_chars P s \<noteq> [] \<Longrightarrow> \<not> P (last (strip_chars P s))"
  using hd_dropWhile[of P "rev (dropWhile P s)"]
  by (simp add: strip_chars_def last_rev)

lemma strip_chars_hd:
  assumes ne: "strip_chars P s \<noteq> []"
  shows "\<not> P (hd (strip_chars P s))"
proof -
  let ?t = "dropWhile P s"
  let ?k = "length ?t - length (takeWhile P (rev ?t))"
  have "?t = [] \<Longrightarrow> strip_chars P s = []"
  proof -
    assume e: "?t = []"
    show ?thesis unfolding strip_chars_def e by simp
  qed
  with ne have t: "?t \<noteq> []" by blast
  from ne have "?k \<noteq> 0" unfolding strip_chars_eq by auto
  then have "hd (take ?k ?t) = hd ?t" by (cases ?k; cases ?t) simp_all
  then have "hd (strip_chars P s) = hd ?t" unfolding strip_chars_eq .
  with hd_dropWhile[OF t] show ?thesis by simp
qed

lemma slug_core_chars: "set (slug_core rt text) \<subseteq> {c. slug_char c}"
proof -
  have a: "set (sub_runs not_az09 (ascii ''_'') s) \<subseteq> {c. slug_char c}" for s
    using sub_runs_set[of not_az09 "ascii ''_''" s]
    by (auto simp: ascii_def slug_char_def not_az09_def)
  have b: "set (sub_runs is_us (ascii ''_'') s) \<subseteq> {c. slug_char c}" if "set s \<subseteq> {c. slug_char c}" for s
    using sub_runs_set[of is_us "ascii ''_''" s] that
    by (auto simp: ascii_def slug_char_def)
  show ?thesis
    unfolding slug_core_def Let_def
    using set_strip_chars b[OF a] by (rule subset_trans)
qed

lemma slug_core_single: "single_us (slug_core rt text)"
  unfolding slug_core_def Let_def
  using single_us_sub_runs by (simp add: ascii_def single_us_strip)

lemma slug_core_ends:
  "slug_core rt text \<noteq> [] \<Longrightarrow> hd (slug_core rt text) \<noteq> 95 \<and> last (slug_core rt text) \<noteq> 95"
  unfolding slug_core_def Let_def
  using strip_chars_hd[of is_us] strip_chars_last[of is_us]
  by (simp add: is_us_def)

lemma unknown_shape:
  "list_all slug_char (ascii ''unknown'') \<and> single_us (ascii ''unknown'')
   \<and> ascii ''unknown'' \<noteq> [] \<and> hd (ascii ''unknown'') \<noteq> 95 \<and> last (ascii ''unknown'') \<noteq> 95"
  by (simp add: ascii_def slug_char_def is_az_def is_09_def)

lemma strip_chars_all:
  assumes "list_all P s"
  shows "strip_chars P s = []"
proof -
  from assms have e: "dropWhile P s = []" by (simp add: list_all_iff)
  show ?thesis unfolding strip_chars_def e by simp
qed

lemma slug_core_empty: "slug_core rt None = [] \<and> slug_core rt (Some []) = []"
  by (simp add: slug_core_def str_strip_def strip_chars_def str_lower_def replace_char_def)

lemma slug_core_space:
  assumes "list_all (isspace rt) t"
  shows "slug_core rt (Some t) = []"
proof -
  have e: "str_strip rt t = []" unfolding str_strip_def using assms by (rule strip_chars_all)
  have n: "str_strip rt [] = []" by (simp add: str_strip_def strip_chars_def)
  show ?thesis
    unfolding slug_core_def
    by (simp add: e n str_lower_def replace_char_def strip_chars_def)
qed

text \<open>
  C1: for every input, the slug consists of characters of \<open>[a-z0-9_]\<close> only, no two
  neighbouring characters of it are both underscores, it is not empty and neither
  starts nor ends with an underscore; an absent or empty input, an input of white
  space only, and any input that the normalisation reduces to the empty string give
  the fallback \<open>unknown\<close>. The names made of letters, digits, spaces and \<open>&\<close> are
  among the inputs, so their slugs have lowercase letters, digits and single
  underscores only.
\<close>

theorem slugify_shape:
  "list_all slug_char (slugify rt text)
   \<and> single_us (slugify rt text)
   \<and> slugify rt text \<noteq> []
   \<and> hd (slugify rt text) \<noteq> 95 \<and> last (slugify rt text) \<noteq> 95
   \<and> (text = None \<or> text = Some [] \<longrightarrow> slugify rt text = ascii ''unknown'')
   \<and> (\<forall>t. text = Some t \<and> list_all (isspace rt) t \<longrightarrow> slugify rt text = ascii ''unknown'')
   \<and> (slug_core rt text = [] \<longrightarrow> slugify rt text = ascii ''unknown'')"
proof (cases "slug_core rt text = []")
  case True
  then have u: "slugify rt text = ascii ''unknown''" by (simp add: slugify_def)
  show ?thesis unfolding u using unknown_shape by simp
next
  case False
  then have c: "slugify rt text = slug_core rt text" by (simp add: slugify_def)
  have "list_all slug_char (slug_core rt text)"
    using slug_core_chars[of rt "text"] by (auto simp: list_all_iff)
  moreover note slug_core_single[of rt "text"] slug_core_ends[OF False]
  moreover have "text \<noteq> None \<and> text \<noteq> Some []" using False slug_core_empty[of rt] by (cases "text") auto
  moreover have "\<not> (text = Some t \<and> list_all (isspace rt) t)" for t
    using False slug_core_space[of rt t] by auto
  ultimately show ?thesis unfolding c using False by auto
qed


theorem slugify_shape_witness:
  "slugify test_rt (Some (ascii ''  Tom & Jerry: 2!! '')) = ascii ''tom_and_jerry_2''
   \<and> list_all slug_char (ascii ''tom_and_jerry_2'')
   \<and> single_us (ascii ''tom_and_jerry_2'')
   \<and> hd (ascii ''tom_and_jerry_2'') \<noteq> 95 \<and> last (ascii ''tom_and_jerry_2'') \<noteq> 95
   \<and> slugify test_rt None = ascii ''unknown''
   \<and> list_all (isspace test_rt) (ascii ''   '')
   \<and> slugify test_rt (Some (ascii ''   '')) = ascii ''unknown''
   \<and> slug_core test_rt (Some (ascii ''_-!'')) = []
   \<and> slugify test_rt (Some (ascii ''_-!'')) = ascii ''unknown''"
proof -
  have e: "slugify test_rt (Some (ascii ''  Tom & Jerry: 2!! '')) = ascii ''tom_and_jerry_2''"
    by code_simp
  have s: "list_all (isspace test_rt) (ascii ''   '')" by code_simp
  have c: "slug_core test_rt (Some (ascii ''_-!'')) = []" by code_simp
  show ?thesis
    using slugify_shape[of test_rt "Some (ascii ''  Tom & Jerry: 2!! '')"]
      slugify_shape[of test_rt None]
      slugify_shape[of test_rt "Some (ascii ''   '')"]
      slugify_shape[of test_rt "Some (ascii ''_-!'')"] e s c
    by simp
qed



section \<open>The icon locator\<close>



lemma find_app:
  "find P (xs @ ys) = (case find P xs of None \<Rightarrow> find P ys | Some x \<Rightarrow> Some x)"
  by (induction xs) simp_all

lemma dec_digits_chars: "set (dec_digits n) \<subseteq> {c. is_09 c} \<and> dec_digits n \<noteq> []"
proof (induction n rule: dec_digits.induct)
  case (1 n)
  show ?case
  proof (cases "n < 10")
    case True
    then show ?thesis by (simp add: dec_digits.simps[of n] is_09_def)
  next
    case False
    have "n mod 10 < 10" by simp
    then have "is_09 (48 + n mod 10)" unfolding is_09_def by linarith
    with False 1 show ?thesis by (simp add: dec_digits.simps[of n])
  qed
qed

lemma str_int_chars: "set (str_int i) \<subseteq> insert 45 {c. is_09 c} \<and> str_int i \<noteq> []"
  using dec_digits_chars[of "nat i"] dec_digits_chars[of "nat (- i)"]
  by (auto simp: str_int_def)

lemma str_int_part: "47 \<notin> set (str_int i) \<and> str_int i \<noteq> [] \<and> str_int i \<noteq> ascii ''.''"
proof -
  have "47 \<notin> insert 45 {c. is_09 c}" "46 \<notin> insert 45 {c. is_09 c}"
    by (simp_all add: is_09_def)
  moreover have "str_int i = ascii ''.'' \<Longrightarrow> 46 \<in> set (str_int i)" by (simp add: ascii_def)
  ultimately show ?thesis using str_int_chars[of i] by blast
qed

lemma split_on_none: "sep \<notin> set s \<Longrightarrow> split_on sep s = [s]"
  by (induction s) auto

lemma path_of_part:
  "47 \<notin> set s \<Longrightarrow> s \<noteq> [] \<Longrightarrow> s \<noteq> ascii ''.'' \<Longrightarrow> path_of s = Path False [s]"
  by (cases s) (auto simp: path_of_def split_on_none)

lemma joinpath_part:
  "47 \<notin> set s \<Longrightarrow> s \<noteq> [] \<Longrightarrow> s \<noteq> ascii ''.'' \<Longrightarrow> joinpath (Path a ps) s = Path a (ps @ [s])"
  by (simp add: joinpath_def path_of_part)

lemma year_dir_eq:
  "joinpath (path_of IMG_DIR) (str_int year) = Path False [ascii ''img'', str_int year]"
proof -
  have "path_of IMG_DIR = Path False [ascii ''img'']"
    unfolding IMG_DIR_def by (rule path_of_part) (simp_all add: ascii_def)
  then show ?thesis using str_int_part[of year] by (simp add: joinpath_part)
qed

lemma py_str_Inr: "py_str rt year = Inr ys \<Longrightarrow> ys = str_int year"
  by (simp add: py_str_def split: if_splits)

lemma first_existing_append:
  "first_existing probe (xs @ ys) =
     (case first_existing probe xs of
        Inl e \<Rightarrow> Inl e
      | Inr (Some f) \<Rightarrow> Inr (Some f)
      | Inr None \<Rightarrow> first_existing probe ys)"
  by (induction xs) (simp_all split: sum.splits)

lemma first_existing_cong:
  "(\<And>x. x \<in> set xs \<Longrightarrow> p x = q x) \<Longrightarrow> first_existing p xs = first_existing q xs"
  by (induction xs) (auto split: sum.splits)

lemma first_existing_Some:
  "first_existing p xs = Inr (Some f) \<Longrightarrow> f \<in> set xs \<and> p f = Inr True"
  by (induction xs) (auto split: sum.splits if_splits)

lemma probe_exts_first:
  assumes "py_str rt year = Inr ys"
  shows "probe_exts rt fs year yd slug suf exts =
     map_sum id (map_option (\<lambda>f. ascii ''img/'' @ ys @ ascii ''/'' @ path_name (joinpath yd f)))
       (first_existing (\<lambda>f. fs (joinpath yd f)) (map (\<lambda>ext. slug @ suf @ ext) exts))"
  by (induction exts) (simp_all add: Let_def assms split: sum.splits)

lemma probe_suffixes_first:
  assumes "py_str rt year = Inr ys"
  shows "probe_suffixes rt fs year yd slug sufs =
     map_sum id (map_option (\<lambda>f. ascii ''img/'' @ ys @ ascii ''/'' @ path_name (joinpath yd f)))
       (first_existing (\<lambda>f. fs (joinpath yd f))
          (concat (map (\<lambda>suf. map (\<lambda>ext. slug @ suf @ ext) EXTS) sufs)))"
proof (induction sufs)
  case Nil
  show ?case by simp
next
  case (Cons suf sufs)
  show ?case
    by (simp add: probe_exts_first[OF assms] first_existing_append Cons
             split: sum.splits option.splits)
qed

lemma candidates_list:
  "candidates s =
     [s @ ascii ''.jpg'', s @ ascii ''.jpeg'', s @ ascii ''.png'', s @ ascii ''.webp'',
      s @ ascii ''_2.jpg'', s @ ascii ''_2.jpeg'', s @ ascii ''_2.png'', s @ ascii ''_2.webp'',
      s @ ascii ''_3.jpg'', s @ ascii ''_3.jpeg'', s @ ascii ''_3.png'', s @ ascii ''_3.webp'',
      s @ ascii ''_4.jpg'', s @ ascii ''_4.jpeg'', s @ ascii ''_4.png'', s @ ascii ''_4.webp'',
      s @ ascii ''_5.jpg'', s @ ascii ''_5.jpeg'', s @ ascii ''_5.png'', s @ ascii ''_5.webp'']"
  by (simp add: candidates_def EXTS_def SUFFIXES_def ascii_def)

lemma candidate_part:
  assumes "47 \<notin> set s" "f \<in> set (candidates s)"
  shows "47 \<notin> set f \<and> f \<noteq> [] \<and> f \<noteq> ascii ''.''"
proof -
  from assms(2) obtain suf ext where f: "f = s @ suf @ ext" and suf: "suf \<in> set SUFFIXES" and ext: "ext \<in> set EXTS"
    by (auto simp: candidates_def)
  from suf have a: "47 \<notin> set suf" by (auto simp: SUFFIXES_def ascii_def)
  from ext have b: "47 \<notin> set ext \<and> 4 \<le> length ext" by (auto simp: EXTS_def ascii_def)
  have "length f \<ge> 4" using b f by simp
  then have "f \<noteq> [] \<and> f \<noteq> ascii ''.''" by (auto simp: ascii_def)
  with a b assms(1) f show ?thesis by simp
qed


lemma find_image_for_gen:
  "find_image_for rt fs year base_slug =
     (case py_str rt year of
        Inl e \<Rightarrow> Inl e
      | Inr ys \<Rightarrow>
          (case fs (Path False [ascii ''img'', ys]) of
             Inl e \<Rightarrow> Inl e
           | Inr found \<Rightarrow>
               if \<not> found then Inr None
               else map_sum id
                      (map_option (\<lambda>f. ascii ''img/'' @ ys @ ascii ''/''
                                       @ path_name (joinpath (Path False [ascii ''img'', ys]) f)))
                      (first_existing (\<lambda>f. fs (joinpath (Path False [ascii ''img'', ys]) f))
                         (candidates base_slug))))"
proof (cases "py_str rt year")
  case (Inl e)
  then show ?thesis by (simp add: find_image_for_def)
next
  case (Inr ys)
  have yd: "joinpath (path_of IMG_DIR) ys = Path False [ascii ''img'', ys]"
    unfolding py_str_Inr[OF Inr] by (rule year_dir_eq)
  show ?thesis
    unfolding find_image_for_def Inr
    by (simp add: yd Let_def probe_suffixes_first[OF Inr] candidates_def split: sum.splits)
qed

lemma find_image_for_plain:
  assumes ns: "47 \<notin> set base_slug"
  shows "find_image_for rt fs year base_slug =
     (case py_str rt year of
        Inl e \<Rightarrow> Inl e
      | Inr ys \<Rightarrow>
          (case fs (Path False [ascii ''img'', ys]) of
             Inl e \<Rightarrow> Inl e
           | Inr found \<Rightarrow>
               if \<not> found then Inr None
               else map_sum id (map_option (\<lambda>f. ascii ''img/'' @ ys @ ascii ''/'' @ f))
                      (first_existing (\<lambda>f. fs (Path False [ascii ''img'', ys, f]))
                         (candidates base_slug))))"
proof (cases "py_str rt year")
  case (Inl e)
  then show ?thesis by (simp add: find_image_for_gen)
next
  case (Inr ys)
  let ?yd = "Path False [ascii ''img'', ys]"
  let ?cs = "candidates base_slug"
  have j: "joinpath ?yd f = Path False [ascii ''img'', ys, f]" if "f \<in> set ?cs" for f
    using candidate_part[OF ns that] by (simp add: joinpath_part)
  have a: "first_existing (\<lambda>f. fs (joinpath ?yd f)) ?cs
         = first_existing (\<lambda>f. fs (Path False [ascii ''img'', ys, f])) ?cs"
    by (rule first_existing_cong) (simp add: j)
  have b: "map_sum id (map_option (\<lambda>f. ascii ''img/'' @ ys @ ascii ''/'' @ path_name (joinpath ?yd f))) r
         = map_sum id (map_option (\<lambda>f. ascii ''img/'' @ ys @ ascii ''/'' @ f)) r"
    if "r = first_existing (\<lambda>f. fs (Path False [ascii ''img'', ys, f])) ?cs" for r
  proof (cases r)
    case (Inl e)
    then show ?thesis by simp
  next
    case r: (Inr found)
    show ?thesis
    proof (cases found)
      case None
      with r show ?thesis by simp
    next
      case (Some f)
      with that r have "f \<in> set ?cs" by (metis first_existing_Some)
      then show ?thesis unfolding r Some by (simp add: j path_name_def)
    qed
  qed
  have g: "find_image_for rt fs year base_slug =
     (case fs ?yd of
        Inl e \<Rightarrow> Inl e
      | Inr found \<Rightarrow>
          if \<not> found then Inr None
          else map_sum id
                 (map_option (\<lambda>f. ascii ''img/'' @ ys @ ascii ''/'' @ path_name (joinpath ?yd f)))
                 (first_existing (\<lambda>f. fs (joinpath ?yd f)) ?cs))"
    by (simp add: find_image_for_gen Inr)
  show ?thesis unfolding g a b[OF refl] by (simp add: Inr)
qed

text \<open>
  C2, as amended: for every year and base slug, \<open>find_image_for\<close> formats the year,
  probes the directory \<open>img/<year>\<close> and then the candidates \<open><slug><suffix><ext>\<close> in
  that directory, in the order of \<open>candidates\<close> (the suffixes \<open>""\<close>, \<open>_2\<close>, ..., \<open>_5\<close>
  outside, the extensions \<open>.jpg\<close>, \<open>.jpeg\<close>, \<open>.png\<close>, \<open>.webp\<close> inside: the twenty names
  listed), up to the first that exists. It returns nothing when the directory does
  not exist, \<open>img/<year>/<name of that path>\<close> for the first candidate that exists,
  and nothing when every candidate has been probed and none exists; when \<open>str(year)\<close>
  or one of these probes raises, it raises that error. For a base slug without
  \<open>/\<close>, as \<open>slugify\<close> returns them, the candidate is a single part of the path and
  the name returned is the candidate itself.
\<close>

theorem find_image_for_first:
  "find_image_for rt fs year base_slug =
     (case py_str rt year of
        Inl e \<Rightarrow> Inl e
      | Inr ys \<Rightarrow>
          (case fs (Path False [ascii ''img'', ys]) of
             Inl e \<Rightarrow> Inl e
           | Inr found \<Rightarrow>
               if \<not> found then Inr None
               else map_sum id
                      (map_option (\<lambda>f. ascii ''img/'' @ ys @ ascii ''/''
                                       @ path_name (joinpath (Path False [ascii ''img'', ys]) f)))
                      (first_existing (\<lambda>f. fs (joinpath (Path False [ascii ''img'', ys]) f))
                         (candidates base_slug))))
   \<and> (47 \<notin> set base_slug \<longrightarrow>
        find_image_for rt fs year base_slug =
          (case py_str rt year of
             Inl e \<Rightarrow> Inl e
           | Inr ys \<Rightarrow>
               (case fs (Path False [ascii ''img'', ys]) of
                  Inl e \<Rightarrow> Inl e
                | Inr found \<Rightarrow>
                    if \<not> found then Inr None
                    else map_sum id (map_option (\<lambda>f. ascii ''img/'' @ ys @ ascii ''/'' @ f))
                           (first_existing (\<lambda>f. fs (Path False [ascii ''img'', ys, f]))
                              (candidates base_slug)))))
   \<and> (\<forall>ys. py_str rt year = Inr ys \<longrightarrow> ys = str_int year)
   \<and> candidates base_slug =
       [base_slug @ ascii ''.jpg'', base_slug @ ascii ''.jpeg'',
        base_slug @ ascii ''.png'', base_slug @ ascii ''.webp'',
        base_slug @ ascii ''_2.jpg'', base_slug @ ascii ''_2.jpeg'',
        base_slug @ ascii ''_2.png'', base_slug @ ascii ''_2.webp'',
        base_slug @ ascii ''_3.jpg'', base_slug @ ascii ''_3.jpeg'',
        base_slug @ ascii ''_3.png'', base_slug @ ascii ''_3.webp'',
        base_slug @ ascii ''_4.jpg'', base_slug @ ascii ''_4.jpeg'',
        base_slug @ ascii ''_4.png'', base_slug @ ascii ''_4.webp'',
        base_slug @ ascii ''_5.jpg'', base_slug @ ascii ''_5.jpeg'',
        base_slug @ ascii ''_5.png'', base_slug @ ascii ''_5.webp'']"
  using find_image_for_gen[of rt fs year base_slug] find_image_for_plain[of base_slug rt fs year]
    candidates_list[of base_slug] py_str_Inr[of rt year]
  by blast

lemma test_year: "py_str test_rt 2023 = Inr (ascii ''2023'')" "py_str test_rt 1999 = Inr (ascii ''1999'')"
  by code_simp+

theorem find_image_for_first_witness:
  "47 \<notin> set (ascii ''red_dead_redemption_2'')
   \<and> py_str test_rt 2023 = Inr (ascii ''2023'')
   \<and> test_fs (Path False [ascii ''img'', ascii ''2023'']) = Inr True
   \<and> first_existing (\<lambda>f. test_fs (Path False [ascii ''img'', ascii ''2023'', f]))
        (candidates (ascii ''red_dead_redemption_2''))
       = Inr (Some (ascii ''red_dead_redemption_2.png''))
   \<and> find_image_for test_rt test_fs 2023 (ascii ''red_dead_redemption_2'')
       = Inr (Some (ascii ''img/2023/red_dead_redemption_2.png''))
   \<and> test_fs (Path False [ascii ''img'', ascii ''1999'']) = Inr False
   \<and> find_image_for test_rt test_fs 1999 (ascii ''red_dead_redemption_2'') = Inr None"
proof -
  have a: "47 \<notin> set (ascii ''red_dead_redemption_2'')" by (simp add: ascii_def)
  have b: "test_fs (Path False [ascii ''img'', ascii ''2023'']) = Inr True"
    by (simp add: test_fs_def ascii_def)
  have c: "first_existing (\<lambda>f. test_fs (Path False [ascii ''img'', ascii ''2023'', f]))
        (candidates (ascii ''red_dead_redemption_2''))
       = Inr (Some (ascii ''red_dead_redemption_2.png''))"
    by (simp add: candidates_list test_fs_def ascii_def)
  have d: "test_fs (Path False [ascii ''img'', ascii ''1999'']) = Inr False"
    by (simp add: test_fs_def ascii_def)
  have e: "ascii ''img/'' @ ascii ''2023'' @ ascii ''/'' @ ascii ''red_dead_redemption_2.png''
     = ascii ''img/2023/red_dead_redemption_2.png''" by (simp add: ascii_def)
  note w1 = find_image_for_first[of test_rt test_fs 2023 "ascii ''red_dead_redemption_2''",
      THEN conjunct2, THEN conjunct1, rule_format, OF a, unfolded test_year]
  note w2 = find_image_for_first[of test_rt test_fs 1999 "ascii ''red_dead_redemption_2''",
      THEN conjunct2, THEN conjunct1, rule_format, OF a, unfolded test_year]
  have r1: "find_image_for test_rt test_fs 2023 (ascii ''red_dead_redemption_2'')
       = Inr (Some (ascii ''img/2023/red_dead_redemption_2.png''))"
    unfolding w1 using b c e by simp
  have r2: "find_image_for test_rt test_fs 1999 (ascii ''red_dead_redemption_2'') = Inr None"
    unfolding w2 using d by simp
  show ?thesis using a b c d r1 r2 test_year by simp
qed

lemma test_long_name:
  "test_fs (Path False [ascii ''img'', ascii ''2023'']) = Inr True"
  "test_fs (Path False [ascii ''img'', ascii ''2023'', replicate 252 97 @ ascii ''.jpg''])
     = Inl OSError"
  "find_image_for test_rt test_fs 2023 (replicate 252 97) = Inl OSError"
proof -
  show b: "test_fs (Path False [ascii ''img'', ascii ''2023'']) = Inr True"
    by (simp add: test_fs_def ascii_def)
  show p: "test_fs (Path False [ascii ''img'', ascii ''2023'', replicate 252 97 @ ascii ''.jpg''])
       = Inl OSError"
    by (simp add: test_fs_def ascii_def)
  have n: "47 \<notin> set (replicate 252 (97::nat))" by simp
  have c: "candidates (replicate 252 97)
         = (replicate 252 97 @ ascii ''.jpg'') # tl (candidates (replicate 252 97))"
    by (simp add: candidates_list)
  show "find_image_for test_rt test_fs 2023 (replicate 252 97) = Inl OSError"
    unfolding find_image_for_plain[OF n] test_year
    by (subst c) (simp add: b p)
qed

text \<open>
  C2 as stated fails for a base slug whose candidates are too long for the
  filesystem: with \<open>img/2023\<close> present and a slug of 252 letters, no candidate
  exists, and the probe of the first one, a name of 256 characters, raises
  \<open>OSError\<close>; nothing is returned.
\<close>

theorem find_image_for_long_name:
  "test_fs (Path False [ascii ''img'', ascii ''2023'']) = Inr True
   \<and> length (replicate 252 (97::nat) @ ascii ''.jpg'') = 256
   \<and> test_fs (Path False [ascii ''img'', ascii ''2023'', replicate 252 97 @ ascii ''.jpg''])
       = Inl OSError
   \<and> find_image_for test_rt test_fs 2023 (replicate 252 97) = Inl OSError"
  using test_long_name by (simp add: ascii_def)

section \<open>The record filler\<close>



lemma strip_chars_Nil_iff: "(strip_chars P s = []) = list_all P s"
proof
  assume "list_all P s"
  then show "strip_chars P s = []" by (rule strip_chars_all)
next
  assume e: "strip_chars P s = []"
  show "list_all P s"
  proof (rule ccontr)
    assume "\<not> list_all P s"
    then have ne: "dropWhile P s \<noteq> []" by (simp add: list_all_iff)
    then have "\<not> P (hd (dropWhile P s))" by (rule hd_dropWhile)
    then have "\<not> P (last (rev (dropWhile P s)))" using ne by (simp add: last_rev)
    moreover have "rev (dropWhile P s) \<noteq> []" using ne by simp
    ultimately have "dropWhile P (rev (dropWhile P s)) \<noteq> []"
      by (metis dropWhile_eq_Nil_conv last_in_set)
    with e show False by (simp add: strip_chars_def)
  qed
qed

lemma dict_get_set_other: "k' \<noteq> k \<Longrightarrow> dict_get (dict_set d k v) k' = dict_get d k'"
  by (simp add: dict_get_def dict_get_default_def dict_set_def update_conv')

lemma dict_get_set_same: "dict_get (dict_set d k v) k = v"
  by (simp add: dict_get_def dict_get_default_def dict_set_def update_conv')

lemma map_found_Some:
  "map_sum id (map_option g) r = Inr (Some x) \<Longrightarrow> \<exists>f. r = Inr (Some f) \<and> x = g f"
  by (cases r) auto

lemma find_image_for_nonempty:
  assumes "find_image_for rt fs year slug = Inr (Some found)"
  shows "found \<noteq> []"
proof -
  show ?thesis
    using assms unfolding find_image_for_gen
    by (auto split: sum.splits if_splits dest!: map_found_Some simp: ascii_def)
qed

lemma fill_game_icon_blank:
  assumes "\<not> truthy (dict_get g (ascii ''game_name''))
           \<or> (\<exists>s. dict_get g (ascii ''game_name'') = JStr s \<and> list_all (isspace rt) s)"
  shows "fill_game_icon rt fs year g = Inr (dict_set g (ascii ''icon_url'') (JStr PLACEHOLDER))"
proof (cases "truthy (dict_get g (ascii ''game_name''))")
  case False
  then show ?thesis
    by (simp add: fill_game_icon_def py_or_def str_strip_def strip_chars_def)
next
  case True
  with assms obtain s where s: "dict_get g (ascii ''game_name'') = JStr s" "list_all (isspace rt) s"
    by blast
  then have "str_strip rt s = []" by (simp add: str_strip_def strip_chars_all)
  with True s show ?thesis by (simp add: fill_game_icon_def py_or_def)
qed

lemma fill_game_icon_named:
  assumes "dict_get g (ascii ''game_name'') = JStr s" "\<not> list_all (isspace rt) s"
  shows "fill_game_icon rt fs year g =
     (case find_image_for rt fs year (slugify rt (Some (str_strip rt s))) of
        Inl e \<Rightarrow> Inl e
      | Inr None \<Rightarrow> Inr (dict_set g (ascii ''icon_url'') (JStr PLACEHOLDER))
      | Inr (Some found) \<Rightarrow> Inr (dict_set g (ascii ''icon_url'') (JStr found)))"
proof -
  from assms(2) have ne: "str_strip rt s \<noteq> []" by (simp add: str_strip_def strip_chars_Nil_iff)
  then have "s \<noteq> []" by (auto simp: str_strip_def strip_chars_def)
  with assms(1) ne show ?thesis
    by (auto simp: fill_game_icon_def py_or_def Let_def dest: find_image_for_nonempty
             split: sum.splits option.splits)
qed

lemma fill_game_icon_non_text:
  assumes "truthy (dict_get g (ascii ''game_name''))" "\<forall>s. dict_get g (ascii ''game_name'') \<noteq> JStr s"
  shows "fill_game_icon rt fs year g = Inl AttributeError"
  using assms by (cases "dict_get g (ascii ''game_name'')") (simp_all add: fill_game_icon_def py_or_def)

lemma fill_game_icon_form:
  assumes "fill_game_icon rt fs year g = Inr g'"
  shows "\<exists>x. x \<noteq> [] \<and> g' = dict_set g (ascii ''icon_url'') (JStr x)
     \<and> (\<forall>h. dict_get h (ascii ''game_name'') = dict_get g (ascii ''game_name'')
           \<longrightarrow> fill_game_icon rt fs year h = Inr (dict_set h (ascii ''icon_url'') (JStr x)))"
proof -
  let ?v = "dict_get g (ascii ''game_name'')"
  consider (blank) "\<not> truthy ?v \<or> (\<exists>s. ?v = JStr s \<and> list_all (isspace rt) s)"
    | (named) s where "?v = JStr s" "\<not> list_all (isspace rt) s"
    | (other) "truthy ?v" "\<forall>s. ?v \<noteq> JStr s"
    by blast
  then show ?thesis
  proof cases
    case blank
    have "PLACEHOLDER \<noteq> []" by (simp add: PLACEHOLDER_def ascii_def)
    moreover have "g' = dict_set g (ascii ''icon_url'') (JStr PLACEHOLDER)"
      using fill_game_icon_blank[OF blank, of fs year] assms by simp
    moreover have "fill_game_icon rt fs year h = Inr (dict_set h (ascii ''icon_url'') (JStr PLACEHOLDER))"
      if "dict_get h (ascii ''game_name'') = ?v" for h
      using blank that by (intro fill_game_icon_blank) simp
    ultimately show ?thesis by blast
  next
    case named
    let ?f = "find_image_for rt fs year (slugify rt (Some (str_strip rt s)))"
    from fill_game_icon_named[OF named, of fs year] assms obtain r where r: "?f = Inr r"
      by (cases ?f) auto
    let ?x = "case r of None \<Rightarrow> PLACEHOLDER | Some found \<Rightarrow> found"
    have "?x \<noteq> []"
      using r by (auto simp: PLACEHOLDER_def ascii_def dest: find_image_for_nonempty
                       split: option.splits)
    moreover have "g' = dict_set g (ascii ''icon_url'') (JStr ?x)"
      using fill_game_icon_named[OF named, of fs year] assms r by (cases r) auto
    moreover have "fill_game_icon rt fs year h = Inr (dict_set h (ascii ''icon_url'') (JStr ?x))"
      if "dict_get h (ascii ''game_name'') = ?v" for h
    proof -
      from that named have "dict_get h (ascii ''game_name'') = JStr s" by simp
      from fill_game_icon_named[OF this named(2), of fs year] r show ?thesis by (cases r) auto
    qed
    ultimately show ?thesis by blast
  next
    case other
    with assms show ?thesis by (simp add: fill_game_icon_non_text)
  qed
qed


lemma filter_update_other:
  "filter (\<lambda>kv. fst kv \<noteq> k) (AList.update k v al) = filter (\<lambda>kv. fst kv \<noteq> k) al"
  by (induction al) auto

text \<open>
  C3, as amended: for every game object whose \<open>game_name\<close> is absent, false (null,
  the empty string, zero, \<open>false\<close>, an empty list or dict) or a string of white
  space only, \<open>fill_game_icon\<close> assigns the placeholder to \<open>icon_url\<close> whatever the
  filesystem holds, so without a lookup and without an error; for every game object
  whose \<open>game_name\<close> is a string with a character that is not white space, it looks
  up the slug of the stripped name and, when the lookup returns, assigns the path
  found, or the placeholder when none is found, without an error; when the lookup
  raises, it raises that error.
\<close>

theorem fill_game_icon_cases:
  "(map_of g (ascii ''game_name'') = None
      \<or> \<not> truthy (dict_get g (ascii ''game_name''))
      \<or> (\<exists>s. dict_get g (ascii ''game_name'') = JStr s \<and> list_all (isspace rt) s)
     \<longrightarrow> (\<forall>fs. fill_game_icon rt fs year g
                 = Inr (dict_set g (ascii ''icon_url'') (JStr PLACEHOLDER))))
   \<and> (\<forall>s. dict_get g (ascii ''game_name'') = JStr s \<and> \<not> list_all (isspace rt) s
        \<longrightarrow> fill_game_icon rt fs year g
             = (case find_image_for rt fs year (slugify rt (Some (str_strip rt s))) of
                  Inl e \<Rightarrow> Inl e
                | Inr None \<Rightarrow> Inr (dict_set g (ascii ''icon_url'') (JStr PLACEHOLDER))
                | Inr (Some found) \<Rightarrow> Inr (dict_set g (ascii ''icon_url'') (JStr found))))"
proof -
  have "\<not> truthy (dict_get g (ascii ''game_name''))" if "map_of g (ascii ''game_name'') = None"
    using that by (simp add: dict_get_def dict_get_default_def)
  then show ?thesis
    using fill_game_icon_blank[of g rt] fill_game_icon_named[of g _ rt fs year] by blast
qed

theorem fill_game_icon_cases_witness:
  "dict_get [(ascii ''game_name'', JStr (ascii ''  ''))] (ascii ''game_name'') = JStr (ascii ''  '')
   \<and> list_all (isspace test_rt) (ascii ''  '')
   \<and> fill_game_icon test_rt test_fs 2023 [(ascii ''game_name'', JStr (ascii ''  ''))]
       = Inr [(ascii ''game_name'', JStr (ascii ''  '')), (ascii ''icon_url'', JStr (ascii ''img/*''))]
   \<and> map_of [(ascii ''title'', JStr (ascii ''x''))] (ascii ''game_name'') = None
   \<and> fill_game_icon test_rt test_fs 2023 [(ascii ''title'', JStr (ascii ''x''))]
       = Inr [(ascii ''title'', JStr (ascii ''x'')), (ascii ''icon_url'', JStr (ascii ''img/*''))]
   \<and> dict_get [(ascii ''game_name'', JStr (ascii ''Red Dead Redemption 2''))] (ascii ''game_name'')
       = JStr (ascii ''Red Dead Redemption 2'')
   \<and> \<not> list_all (isspace test_rt) (ascii ''Red Dead Redemption 2'')
   \<and> find_image_for test_rt test_fs 2023
        (slugify test_rt (Some (str_strip test_rt (ascii ''Red Dead Redemption 2''))))
       = Inr (Some (ascii ''img/2023/red_dead_redemption_2.png''))
   \<and> fill_game_icon test_rt test_fs 2023 [(ascii ''game_name'', JStr (ascii ''Red Dead Redemption 2''))]
       = Inr [(ascii ''game_name'', JStr (ascii ''Red Dead Redemption 2'')),
              (ascii ''icon_url'', JStr (ascii ''img/2023/red_dead_redemption_2.png''))]"
proof -
  let ?blank = "[(ascii ''game_name'', JStr (ascii ''  ''))]"
  let ?none = "[(ascii ''title'', JStr (ascii ''x''))]"
  let ?rdr = "[(ascii ''game_name'', JStr (ascii ''Red Dead Redemption 2''))]"
  have a: "dict_get ?blank (ascii ''game_name'') = JStr (ascii ''  '')"
    by (simp add: dict_get_def dict_get_default_def)
  have b: "list_all (isspace test_rt) (ascii ''  '')" by (simp add: test_rt_def ascii_def)
  have c: "map_of ?none (ascii ''game_name'') = None" by (simp add: ascii_def)
  have d: "dict_get ?rdr (ascii ''game_name'') = JStr (ascii ''Red Dead Redemption 2'')"
    by (simp add: dict_get_def dict_get_default_def)
  have e: "\<not> list_all (isspace test_rt) (ascii ''Red Dead Redemption 2'')"
    by (simp add: test_rt_def ascii_def)
  have f: "find_image_for test_rt test_fs 2023
        (slugify test_rt (Some (str_strip test_rt (ascii ''Red Dead Redemption 2''))))
       = Inr (Some (ascii ''img/2023/red_dead_redemption_2.png''))"
    by code_simp
  have p: "dict_set ?blank (ascii ''icon_url'') (JStr PLACEHOLDER)
       = [(ascii ''game_name'', JStr (ascii ''  '')), (ascii ''icon_url'', JStr (ascii ''img/*''))]"
      "dict_set ?none (ascii ''icon_url'') (JStr PLACEHOLDER)
       = [(ascii ''title'', JStr (ascii ''x'')), (ascii ''icon_url'', JStr (ascii ''img/*''))]"
      "dict_set ?rdr (ascii ''icon_url'') (JStr (ascii ''img/2023/red_dead_redemption_2.png''))
       = [(ascii ''game_name'', JStr (ascii ''Red Dead Redemption 2'')),
              (ascii ''icon_url'', JStr (ascii ''img/2023/red_dead_redemption_2.png''))]"
    by (simp_all add: dict_set_def PLACEHOLDER_def ascii_def)
  have r1: "fill_game_icon test_rt test_fs 2023 ?blank = Inr (dict_set ?blank (ascii ''icon_url'') (JStr PLACEHOLDER))"
    using fill_game_icon_cases[where g="?blank" and rt=test_rt and fs=test_fs and year=2023] a b by blast
  have r2: "fill_game_icon test_rt test_fs 2023 ?none = Inr (dict_set ?none (ascii ''icon_url'') (JStr PLACEHOLDER))"
    using fill_game_icon_cases[where g="?none" and rt=test_rt and fs=test_fs and year=2023] c by blast
  have r3: "fill_game_icon test_rt test_fs 2023 ?rdr
     = Inr (dict_set ?rdr (ascii ''icon_url'') (JStr (ascii ''img/2023/red_dead_redemption_2.png'')))"
    using fill_game_icon_cases[where g="?rdr" and rt=test_rt and fs=test_fs and year=2023, THEN conjunct2, rule_format, of "ascii ''Red Dead Redemption 2''"] d e
    unfolding f by simp
  show ?thesis using a b c d e f r1 r2 r3 unfolding p by blast
qed

lemma concat_replicate_single: "concat (replicate n [x]) = replicate n x"
  by (induction n) simp_all

lemma replace_char_replicate:
  "old \<noteq> x \<Longrightarrow> replace_char old new (replicate n x) = replicate n x"
  by (simp add: replace_char_def concat_replicate_single)

lemma sub_runs_replicate: "\<not> P x \<Longrightarrow> sub_runs P repl (replicate n x) = replicate n x"
  by (induction n) simp_all

lemma strip_chars_replicate: "\<not> P x \<Longrightarrow> strip_chars P (replicate n x) = replicate n x"
  by (simp add: strip_chars_def dropWhile_replicate)

lemma str_lower_replicate: "str_lower test_rt (replicate n 97) = replicate n 97"
proof -
  let ?s = "replicate n (97::nat)"
  have "map (\<lambda>i. [if 65 \<le> ?s ! i \<and> ?s ! i \<le> 90 then ?s ! i + 32 else ?s ! i]) [0..<n]
        = map (\<lambda>i. [97::nat]) [0..<n]"
    by (rule map_cong) simp_all
  also have "\<dots> = replicate n [97]" by (simp add: map_replicate_const)
  finally have "concat (map (\<lambda>i. [if 65 \<le> ?s ! i \<and> ?s ! i \<le> 90 then ?s ! i + 32 else ?s ! i]) [0..<n])
        = ?s"
    by (simp only: concat_replicate_single)
  then show ?thesis by (simp add: str_lower_def test_rt_def)
qed

lemma test_long_slug:
  "slugify test_rt (Some (str_strip test_rt (replicate 252 97))) = replicate 252 97"
proof -
  have s: "str_strip test_rt (replicate 252 97) = replicate 252 97"
    unfolding str_strip_def by (rule strip_chars_replicate) (simp add: test_rt_def)
  have c: "slug_core test_rt (Some (replicate 252 97)) = replicate 252 97"
    by (simp add: slug_core_def s str_lower_replicate replace_char_replicate
          sub_runs_replicate strip_chars_replicate not_az09_def is_az_def is_us_def)
  show ?thesis unfolding s slugify_def c by simp
qed

text \<open>
  C3 as stated fails for a game object that is none of the above: on a name that is
  a number, such as \<open>{"game_name": 2048}\<close>, \<open>.strip()\<close> raises \<open>AttributeError\<close> and
  nothing is assigned. It fails too for a name of 252 letters when \<open>img/2023\<close>
  exists: the lookup probes a name that is too long, \<open>exists\<close> raises \<open>OSError\<close> and
  nothing is assigned.
\<close>

theorem fill_game_icon_number_name:
  "truthy (dict_get [(ascii ''game_name'', JInt 2048)] (ascii ''game_name''))
   \<and> fill_game_icon test_rt test_fs 2023 [(ascii ''game_name'', JInt 2048)] = Inl AttributeError
   \<and> (\<forall>g'. fill_game_icon test_rt test_fs 2023 [(ascii ''game_name'', JInt 2048)] \<noteq> Inr g')
   \<and> \<not> list_all (isspace test_rt) (replicate 252 97)
   \<and> fill_game_icon test_rt test_fs 2023 [(ascii ''game_name'', JStr (replicate 252 97))]
       = Inl OSError"
proof -
  let ?g = "[(ascii ''game_name'', JStr (replicate 252 97))]"
  have a: "fill_game_icon test_rt test_fs 2023 [(ascii ''game_name'', JInt 2048)] = Inl AttributeError"
    by (simp add: fill_game_icon_def py_or_def dict_get_def dict_get_default_def)
  have t: "truthy (dict_get [(ascii ''game_name'', JInt 2048)] (ascii ''game_name''))"
    by (simp add: dict_get_def dict_get_default_def)
  have n: "dict_get ?g (ascii ''game_name'') = JStr (replicate 252 97)"
    by (simp add: dict_get_def dict_get_default_def)
  have w: "\<not> list_all (isspace test_rt) (replicate 252 97)"
    by (simp add: test_rt_def list_all_iff)
  have "fill_game_icon test_rt test_fs 2023 ?g = Inl OSError"
    unfolding fill_game_icon_named[OF n w] test_long_slug test_long_name(3) by simp
  with a t w show ?thesis by simp
qed

text \<open>
  C6: for every filesystem state, year and game object, \<open>fill_game_icon\<close> applied
  twice gives what it gives applied once (the same object, or the same error): when
  the first application has filled the object, the second returns it as it is, so
  it assigns the \<open>icon_url\<close> that the first one did.
\<close>

theorem fill_game_icon_twice:
  "(case fill_game_icon rt fs year g of
      Inl e \<Rightarrow> Inl e
    | Inr g' \<Rightarrow> fill_game_icon rt fs year g') = fill_game_icon rt fs year g
   \<and> (\<forall>g'. fill_game_icon rt fs year g = Inr g' \<longrightarrow>
          fill_game_icon rt fs year g' = Inr g'
          \<and> (\<exists>g''. fill_game_icon rt fs year g' = Inr g''
                 \<and> dict_get g'' (ascii ''icon_url'') = dict_get g' (ascii ''icon_url'')))"
proof -
  have again: "fill_game_icon rt fs year g' = Inr g'"
    if first: "fill_game_icon rt fs year g = Inr g'" for g'
  proof -
    from fill_game_icon_form[OF first] obtain x where
      g': "g' = dict_set g (ascii ''icon_url'') (JStr x)" and
      h: "\<And>h. dict_get h (ascii ''game_name'') = dict_get g (ascii ''game_name'')
             \<Longrightarrow> fill_game_icon rt fs year h = Inr (dict_set h (ascii ''icon_url'') (JStr x))"
      by blast
    have "dict_get g' (ascii ''game_name'') = dict_get g (ascii ''game_name'')"
      unfolding g' by (rule dict_get_set_other) (simp add: ascii_def)
    then have "fill_game_icon rt fs year g' = Inr (dict_set g' (ascii ''icon_url'') (JStr x))"
      by (rule h)
    also have "dict_set g' (ascii ''icon_url'') (JStr x) = g'"
      unfolding g' dict_set_def by (rule update_last)
    finally show ?thesis .
  qed
  show ?thesis
  proof (cases "fill_game_icon rt fs year g")
    case (Inl e)
    then show ?thesis by simp
  next
    case (Inr g')
    with again[OF Inr] show ?thesis by simp
  qed
qed

theorem fill_game_icon_twice_witness:
  "fill_game_icon test_rt test_fs 2023
      [(ascii ''game_name'', JStr (ascii ''Red Dead Redemption 2'')), (ascii ''icon_url'', JNull)]
    = Inr [(ascii ''game_name'', JStr (ascii ''Red Dead Redemption 2'')),
           (ascii ''icon_url'', JStr (ascii ''img/2023/red_dead_redemption_2.png''))]
   \<and> fill_game_icon test_rt test_fs 2023
      [(ascii ''game_name'', JStr (ascii ''Red Dead Redemption 2'')),
       (ascii ''icon_url'', JStr (ascii ''img/2023/red_dead_redemption_2.png''))]
    = Inr [(ascii ''game_name'', JStr (ascii ''Red Dead Redemption 2'')),
           (ascii ''icon_url'', JStr (ascii ''img/2023/red_dead_redemption_2.png''))]"
proof -
  have e: "fill_game_icon test_rt test_fs 2023
      [(ascii ''game_name'', JStr (ascii ''Red Dead Redemption 2'')), (ascii ''icon_url'', JNull)]
    = Inr [(ascii ''game_name'', JStr (ascii ''Red Dead Redemption 2'')),
           (ascii ''icon_url'', JStr (ascii ''img/2023/red_dead_redemption_2.png''))]"
    by code_simp
  show ?thesis
    using fill_game_icon_twice[of test_rt test_fs 2023
        "[(ascii ''game_name'', JStr (ascii ''Red Dead Redemption 2'')), (ascii ''icon_url'', JNull)]"] e
    by simp
qed

text \<open>
  C9: for every game object and year, the object after \<open>fill_game_icon\<close> (the
  object itself when the call raises) differs from the object before at the key
  \<open>icon_url\<close> only: every other key maps to the value it had, the keys other than
  \<open>icon_url\<close> are the same, and the entries other than \<open>icon_url\<close> are the same in
  the same order; after a call that returns, the keys are the keys before and
  \<open>icon_url\<close>.
\<close>

theorem fill_game_icon_frame:
  "(\<forall>k. k \<noteq> ascii ''icon_url'' \<longrightarrow> map_of (filled rt fs year g) k = map_of g k)
   \<and> fst ` set (filled rt fs year g) - {ascii ''icon_url''} = fst ` set g - {ascii ''icon_url''}
   \<and> filter (\<lambda>kv. fst kv \<noteq> ascii ''icon_url'') (filled rt fs year g)
       = filter (\<lambda>kv. fst kv \<noteq> ascii ''icon_url'') g
   \<and> (\<forall>g'. fill_game_icon rt fs year g = Inr g' \<longrightarrow>
          filled rt fs year g = g'
          \<and> fst ` set g' = insert (ascii ''icon_url'') (fst ` set g))"
proof (cases "fill_game_icon rt fs year g")
  case (Inl e)
  then show ?thesis by (simp add: filled_def)
next
  case (Inr g')
  from fill_game_icon_form[OF Inr] obtain x where
    g': "g' = AList.update (ascii ''icon_url'') (JStr x) g"
    unfolding dict_set_def by blast
  have f: "filled rt fs year g = g'" using Inr by (simp add: filled_def)
  show ?thesis unfolding f Inr unfolding g'
    by (simp add: update_conv' dom_update filter_update_other)
qed

theorem fill_game_icon_frame_witness:
  "fill_game_icon test_rt test_fs 2023
      [(ascii ''rank'', JInt 1), (ascii ''icon_url'', JStr (ascii ''old.png'')),
       (ascii ''game_name'', JStr (ascii ''Tom & Jerry''))]
    = Inr [(ascii ''rank'', JInt 1), (ascii ''icon_url'', JStr (ascii ''img/*'')),
           (ascii ''game_name'', JStr (ascii ''Tom & Jerry''))]
   \<and> map_of [(ascii ''rank'', JInt 1), (ascii ''icon_url'', JStr (ascii ''img/*'')),
           (ascii ''game_name'', JStr (ascii ''Tom & Jerry''))] (ascii ''rank'')
      = map_of [(ascii ''rank'', JInt 1), (ascii ''icon_url'', JStr (ascii ''old.png'')),
       (ascii ''game_name'', JStr (ascii ''Tom & Jerry''))] (ascii ''rank'')
   \<and> filter (\<lambda>kv. fst kv \<noteq> ascii ''icon_url'')
        [(ascii ''rank'', JInt 1), (ascii ''icon_url'', JStr (ascii ''img/*'')),
           (ascii ''game_name'', JStr (ascii ''Tom & Jerry''))]
      = [(ascii ''rank'', JInt 1), (ascii ''game_name'', JStr (ascii ''Tom & Jerry''))]"
proof -
  have e: "fill_game_icon test_rt test_fs 2023
      [(ascii ''rank'', JInt 1), (ascii ''icon_url'', JStr (ascii ''old.png'')),
       (ascii ''game_name'', JStr (ascii ''Tom & Jerry''))]
    = Inr [(ascii ''rank'', JInt 1), (ascii ''icon_url'', JStr (ascii ''img/*'')),
           (ascii ''game_name'', JStr (ascii ''Tom & Jerry''))]"
    by code_simp
  have n: "ascii ''rank'' \<noteq> ascii ''icon_url''" by (simp add: ascii_def)
  have f: "filled test_rt test_fs 2023
      [(ascii ''rank'', JInt 1), (ascii ''icon_url'', JStr (ascii ''old.png'')),
       (ascii ''game_name'', JStr (ascii ''Tom & Jerry''))]
    = [(ascii ''rank'', JInt 1), (ascii ''icon_url'', JStr (ascii ''img/*'')),
           (ascii ''game_name'', JStr (ascii ''Tom & Jerry''))]"
    using e by (simp add: filled_def)
  show ?thesis
    using fill_game_icon_frame[of test_rt test_fs 2023
        "[(ascii ''rank'', JInt 1), (ascii ''icon_url'', JStr (ascii ''old.png'')),
          (ascii ''game_name'', JStr (ascii ''Tom & Jerry''))]"] e n
    unfolding f by (simp add: ascii_def)
qed



section \<open>The batch driver\<close>


lemma filled_ok: "fill_game_icon rt fs year g = Inr g' \<Longrightarrow> filled rt fs year g = g'"
  by (simp add: filled_def)

lemma visit_nominees_Inr:
  "visit_nominees rt fs year noms changed = Inr (noms', changed') \<Longrightarrow>
     noms' = map (fill_entry rt fs year) noms
     \<and> (\<forall>d \<in> set (dicts_of noms). \<exists>d'. fill_game_icon rt fs year d = Inr d')
     \<and> changed' = (changed \<or> (\<exists>d \<in> set (dicts_of noms). icon_changes rt fs year d))"
proof (induction rt fs year noms changed arbitrary: noms' changed' rule: visit_nominees.induct)
  case (1 rt fs year changed)
  then show ?case by simp
next
  case (2 rt fs year nom noms changed)
  from "2.prems" obtain nom' where f: "fill_game_icon rt fs year nom = Inr nom'"
    by (auto simp: Let_def split: sum.splits)
  let ?ch = "if dict_get nom' (ascii ''icon_url'') \<noteq> dict_get nom (ascii ''icon_url'') then True else changed"
  from "2.prems" f obtain ns where
    r: "visit_nominees rt fs year noms ?ch = Inr (ns, changed')" and n: "noms' = JDict nom' # ns"
    by (auto simp: Let_def split: sum.splits)
  note ih = "2.IH"[OF refl f r]
  have c: "icon_changes rt fs year nom = (dict_get nom' (ascii ''icon_url'') \<noteq> dict_get nom (ascii ''icon_url''))"
    by (simp add: icon_changes_def filled_ok[OF f])
  show ?case using ih n f c by (auto simp: fill_entry_def filled_ok[OF f])
qed (auto simp: fill_entry_def split: sum.splits)

lemma visit_nominees_Inl:
  "visit_nominees rt fs year noms changed = Inl e \<Longrightarrow>
     \<exists>d \<in> set (dicts_of noms). fill_game_icon rt fs year d = Inl e"
proof (induction rt fs year noms changed rule: visit_nominees.induct)
  case (2 rt fs year nom noms changed)
  show ?case
  proof (cases "fill_game_icon rt fs year nom")
    case (Inl e')
    with "2.prems" show ?thesis by (simp add: Let_def)
  next
    case (Inr nom')
    with "2.prems" "2.IH"[OF refl Inr] show ?thesis
      by (auto simp: Let_def split: sum.splits)
  qed
qed (auto split: sum.splits)



lemma dicts_of_fill_entry:
  "dicts_of (map (fill_entry rt fs year) xs) = map (filled rt fs year) (dicts_of xs)"
  by (induction xs rule: dicts_of.induct) (simp_all add: fill_entry_def)

lemma winner_nominees_keys:
  "ascii ''nominees'' \<noteq> ascii ''winner''" "ascii ''winner'' \<noteq> ascii ''nominees''"
  by (simp_all add: ascii_def)

lemma visit_winner_Inr:
  assumes "visit_winner rt fs year a changed = Inr (a1, changed1)"
  shows "winner_games a1 = map (filled rt fs year) (winner_games a)
     \<and> (\<forall>g \<in> set (winner_games a). \<exists>g'. fill_game_icon rt fs year g = Inr g')
     \<and> changed1 = (changed \<or> (\<exists>g \<in> set (winner_games a). icon_changes rt fs year g))
     \<and> dict_get a1 (ascii ''nominees'') = dict_get a (ascii ''nominees'')"
proof (cases "\<exists>w. dict_get a (ascii ''winner'') = JDict w")
  case False
  then have "visit_winner rt fs year a changed = Inr (a, changed)"
    by (cases "dict_get a (ascii ''winner'')") (simp_all add: visit_winner_def)
  with assms have "a1 = a" "changed1 = changed" by simp_all
  moreover have "winner_games a = []"
    using False by (cases "dict_get a (ascii ''winner'')") (simp_all add: winner_games_def)
  ultimately show ?thesis by simp
next
  case True
  then obtain w where w: "dict_get a (ascii ''winner'') = JDict w" by blast
  from assms w obtain w' where f: "fill_game_icon rt fs year w = Inr w'"
    by (auto simp: visit_winner_def Let_def split: sum.splits)
  from assms w f have a1: "a1 = dict_set a (ascii ''winner'') (JDict w')"
    and c1: "changed1 = (changed \<or> dict_get w' (ascii ''icon_url'') \<noteq> dict_get w (ascii ''icon_url''))"
    by (auto simp: visit_winner_def Let_def split: if_splits)
  have "winner_games a = [w]" by (simp add: winner_games_def w)
  moreover have "winner_games a1 = [w']" by (simp add: winner_games_def a1 dict_get_set_same)
  moreover have "dict_get a1 (ascii ''nominees'') = dict_get a (ascii ''nominees'')"
    unfolding a1 by (rule dict_get_set_other) (rule winner_nominees_keys)
  ultimately show ?thesis using f c1 by (simp add: icon_changes_def filled_ok[OF f])
qed

lemma visit_winner_Inl:
  assumes "visit_winner rt fs year a changed = Inl e"
  shows "\<exists>g \<in> set (winner_games a). fill_game_icon rt fs year g = Inl e"
  using assms
  by (cases "dict_get a (ascii ''winner'')")
     (auto simp: visit_winner_def winner_games_def Let_def split: sum.splits)

lemma award_games_eq: "award_games (JDict a) = winner_games a @ dicts_of (nominee_entries a)"
  by (simp add: award_games_def)

lemma visit_award_Inr:
  assumes "visit_award rt fs year award changed = Inr (award', changed')"
  shows "award_games award' = map (filled rt fs year) (award_games award)
     \<and> (\<forall>g \<in> set (award_games award). \<exists>g'. fill_game_icon rt fs year g = Inr g')
     \<and> changed' = (changed \<or> (\<exists>g \<in> set (award_games award). icon_changes rt fs year g))"
proof -
  from assms obtain a where a: "award = JDict a"
    by (cases award) (simp_all add: visit_award_def)
  from assms a obtain a1 changed1 where
    w: "visit_winner rt fs year a changed = Inr (a1, changed1)"
    by (auto simp: visit_award_def split: sum.splits)
  note W = visit_winner_Inr[OF w]
  let ?v = "dict_get a (ascii ''nominees'')"
  have v1: "dict_get a1 (ascii ''nominees'') = ?v" using W by simp
  have wg: "winner_games (dict_set a1 (ascii ''nominees'') x) = winner_games a1" for x
    by (simp add: winner_games_def dict_get_set_other winner_nominees_keys)
  show ?thesis
  proof (cases "\<exists>noms. ?v = JList noms \<and> noms \<noteq> []")
    case True
    then obtain noms where n: "?v = JList noms" "noms \<noteq> []" by blast
    from assms a w v1 n obtain noms' where
      r: "visit_nominees rt fs year noms changed1 = Inr (noms', changed')"
      and a': "award' = JDict (dict_set a1 (ascii ''nominees'') (JList noms'))"
      by (auto simp: visit_award_def py_or_def split: sum.splits)
    note N = visit_nominees_Inr[OF r]
    have e1: "nominee_entries a = noms" by (simp add: nominee_entries_def n)
    have e2: "nominee_entries (dict_set a1 (ascii ''nominees'') (JList noms')) = noms'"
      by (simp add: nominee_entries_def dict_get_set_same)
    show ?thesis unfolding a a' award_games_eq e1 e2 wg
      using W N by (auto simp: dicts_of_fill_entry)
  next
    case False
    have e1: "nominee_entries a = []"
      using False by (cases ?v) (auto simp: nominee_entries_def)
    have e2: "nominee_entries a1 = []"
      using e1 v1 by (simp add: nominee_entries_def)
    have "award' = JDict a1 \<and> changed' = changed1"
    proof (cases "truthy ?v")
      case t: True
      with False have "\<forall>noms. ?v \<noteq> JList noms" by auto
      with assms a w v1 t show ?thesis
        by (cases ?v) (auto simp: visit_award_def py_or_def)
    next
      case f: False
      with assms a w v1 show ?thesis
        by (auto simp: visit_award_def py_or_def)
    qed
    then show ?thesis unfolding a award_games_eq e1 using W e2 by (simp add: award_games_eq)
  qed
qed

lemma visit_award_Inl:
  assumes "visit_award rt fs year award changed = Inl e"
  shows "(\<forall>a. award \<noteq> JDict a) \<and> e = AttributeError
       \<or> (\<exists>g \<in> set (award_games award). fill_game_icon rt fs year g = Inl e)"
proof (cases "\<exists>a. award = JDict a")
  case False
  with assms show ?thesis by (cases award) (simp_all add: visit_award_def)
next
  case True
  then obtain a where a: "award = JDict a" by blast
  show ?thesis
  proof (cases "visit_winner rt fs year a changed")
    case (Inl e')
    with assms a have "e' = e" by (simp add: visit_award_def)
    with Inl visit_winner_Inl show ?thesis unfolding a award_games_eq by fastforce
  next
    case (Inr p)
    obtain a1 changed1 where p: "p = (a1, changed1)" by (cases p)
    note W = visit_winner_Inr[OF Inr[unfolded p]]
    let ?v = "dict_get a (ascii ''nominees'')"
    have v1: "dict_get a1 (ascii ''nominees'') = ?v" using W by simp
    from assms a Inr p v1 obtain noms where
      n: "py_or ?v (JList []) = JList noms" and r: "visit_nominees rt fs year noms changed1 = Inl e"
      by (cases "py_or ?v (JList [])") (auto simp: visit_award_def split: sum.splits)
    from r have "noms \<noteq> []" by auto
    with n have "?v = JList noms" by (auto simp: py_or_def split: if_splits)
    then have "nominee_entries a = noms" by (simp add: nominee_entries_def)
    with visit_nominees_Inl[OF r] show ?thesis unfolding a award_games_eq by auto
  qed
qed


lemma visit_awards_Inr:
  "visit_awards rt fs year awards changed = Inr (awards', changed') \<Longrightarrow>
     concat (map award_games awards') = map (filled rt fs year) (concat (map award_games awards))
     \<and> (\<forall>g \<in> set (concat (map award_games awards)). \<exists>g'. fill_game_icon rt fs year g = Inr g')
     \<and> changed' = (changed \<or> (\<exists>g \<in> set (concat (map award_games awards)). icon_changes rt fs year g))
     \<and> (\<forall>x \<in> set awards. \<exists>a. x = JDict a)"
proof (induction awards arbitrary: changed awards')
  case Nil
  then show ?case by simp
next
  case (Cons award awards)
  from Cons.prems obtain award1 changed1 where
    a: "visit_award rt fs year award changed = Inr (award1, changed1)"
    by (auto split: sum.splits)
  from Cons.prems a obtain rest where
    r: "visit_awards rt fs year awards changed1 = Inr (rest, changed')"
    and e: "awards' = award1 # rest"
    by (auto split: sum.splits)
  have d: "\<exists>x. award = JDict x" using a by (cases award) (simp_all add: visit_award_def)
  note A = visit_award_Inr[OF a]
  note R = Cons.IH[OF r]
  show ?case unfolding e using A R d by auto
qed

lemma visit_awards_Inl:
  "visit_awards rt fs year awards changed = Inl e \<Longrightarrow>
     (\<exists>x \<in> set awards. \<forall>a. x \<noteq> JDict a) \<and> e = AttributeError
     \<or> (\<exists>g \<in> set (concat (map award_games awards)). fill_game_icon rt fs year g = Inl e)"
proof (induction awards arbitrary: changed)
  case Nil
  then show ?case by simp
next
  case (Cons award awards)
  show ?case
  proof (cases "visit_award rt fs year award changed")
    case (Inl e')
    with Cons.prems have "e' = e" by simp
    with visit_award_Inl[OF Inl] show ?thesis by auto
  next
    case (Inr p)
    obtain award1 changed1 where p: "p = (award1, changed1)" by (cases p)
    from Cons.prems Inr p have "visit_awards rt fs year awards changed1 = Inl e"
      by (auto split: sum.splits)
    from Cons.IH[OF this] show ?thesis by auto
  qed
qed

lemma dict_get_default_set_same: "dict_get_default (dict_set d k v) k dflt = v"
  by (simp add: dict_get_default_def dict_set_def update_conv')

lemma process_data_Inr:
  assumes "process_data rt fs data = Inr (data', changed)"
  shows "\<exists>d year. data = JDict d \<and> py_int rt (dict_get d (ascii ''year'')) = Inr year
     \<and> visited_games data' = map (filled rt fs year) (visited_games data)
     \<and> (\<forall>g \<in> set (visited_games data). \<exists>g'. fill_game_icon rt fs year g = Inr g')
     \<and> changed = (\<exists>g \<in> set (visited_games data). icon_changes rt fs year g)"
proof -
  from assms obtain d where d: "data = JDict d"
    by (cases data) (simp_all add: process_data_def)
  from assms d obtain year where y: "py_int rt (dict_get d (ascii ''year'')) = Inr year"
    by (auto simp: process_data_def split: sum.splits)
  let ?v = "dict_get_default d (ascii ''awards'') (JList [])"
  from assms d y obtain awards where i: "iterate ?v = Inr awards"
    by (auto simp: process_data_def split: sum.splits)
  from assms d y i obtain awards' where
    r: "visit_awards rt fs year awards False = Inr (awards', changed)"
    and d': "data' = JDict (case map_of d (ascii ''awards'') of
                             Some (JList xs) \<Rightarrow> dict_set d (ascii ''awards'') (JList awards')
                           | _ \<Rightarrow> d)"
    by (auto simp: process_data_def split: sum.splits)
  note R = visit_awards_Inr[OF r]
  have main: "visited_games data' = map (filled rt fs year) (visited_games data)
     \<and> (\<forall>g \<in> set (visited_games data). \<exists>g'. fill_game_icon rt fs year g = Inr g')
     \<and> changed = (\<exists>g \<in> set (visited_games data). icon_changes rt fs year g)"
  proof (cases "\<exists>xs. map_of d (ascii ''awards'') = Some (JList xs)")
    case True
    then obtain xs where m: "map_of d (ascii ''awards'') = Some (JList xs)" by blast
    then have v: "?v = JList xs" by (simp add: dict_get_default_def)
    with i have aw: "awards = xs" by simp
    have vd: "visited_games data = concat (map award_games xs)"
      by (simp add: visited_games_def d v)
    have vd': "visited_games data' = concat (map award_games awards')"
      by (simp add: visited_games_def d' m dict_get_default_set_same)
    show ?thesis unfolding vd vd' using R aw by simp
  next
    case False
    then have same: "data' = data" unfolding d d'
      by (auto split: option.splits json.splits)
    have "\<exists>a. x = JDict a" if "x \<in> set awards" for x using R that by blast
    moreover have "awards = []" if "\<forall>xs. ?v \<noteq> JList xs"
    proof (rule ccontr)
      assume "awards \<noteq> []"
      then obtain x where x: "x \<in> set awards" by (cases awards) auto
      from i that have "\<exists>s. x = JStr s" using x by (cases ?v) auto
      with calculation[OF x] show False by auto
    qed
    moreover have "awards = []" if "?v = JList xs" for xs
    proof -
      from that False have "map_of d (ascii ''awards'') = None"
        by (auto simp: dict_get_default_def split: option.splits)
      then have "?v = JList []" by (simp add: dict_get_default_def)
      with i show ?thesis by simp
    qed
    ultimately have e: "awards = []" by blast
    with r have c: "changed = False" by simp
    have "visited_games data = []"
    proof (cases "\<exists>xs. ?v = JList xs")
      case True
      then obtain xs where v: "?v = JList xs" by blast
      with i e have "xs = []" by simp
      with v show ?thesis by (simp add: visited_games_def d)
    next
      case False
      then show ?thesis by (cases ?v) (simp_all add: visited_games_def d)
    qed
    with same c show ?thesis by simp
  qed
  with d y show ?thesis by blast
qed

lemma slugify_no_slash: "47 \<notin> set (slugify rt t)"
proof -
  have "set (slugify rt t) \<subseteq> {c. slug_char c}"
    using slug_core_chars[of rt t] unknown_shape
    by (auto simp: slugify_def Let_def list_all_iff)
  moreover have "\<not> slug_char 47" by (simp add: slug_char_def is_az_def is_09_def)
  ultimately show ?thesis by blast
qed

lemma find_image_for_icon_ok:
  assumes "47 \<notin> set slug" "find_image_for rt fs year slug = Inr (Some found)"
  shows "icon_ok fs year (JStr found)"
proof -
  from assms(2) obtain ys where ys: "py_str rt year = Inr ys"
    unfolding find_image_for_plain[OF assms(1)] by (cases "py_str rt year") simp_all
  note y = py_str_Inr[OF ys]
  from assms(2) obtain f where
    f: "first_existing (\<lambda>f. fs (Path False [ascii ''img'', ys, f])) (candidates slug) = Inr (Some f)"
    and e: "found = ascii ''img/'' @ ys @ ascii ''/'' @ f"
    unfolding find_image_for_plain[OF assms(1)]
    by (auto simp: ys split: sum.splits if_splits dest!: map_found_Some)
  from first_existing_Some[OF f] have ex: "fs (Path False [ascii ''img'', str_int year, f]) = Inr True"
    and m: "f \<in> set (candidates slug)" unfolding y by simp_all
  from candidate_part[OF assms(1) m] have ne: "f \<noteq> []" by blast
  show ?thesis unfolding icon_ok_def e y using ex ne by (simp add: Let_def)
qed

lemma placeholder_icon_ok: "icon_ok fs year (JStr PLACEHOLDER)"
  by (simp add: icon_ok_def PLACEHOLDER_def ascii_def)

lemma fill_icon_ok:
  assumes "fill_game_icon rt fs year g = Inr g'"
  shows "icon_ok fs year (dict_get g' (ascii ''icon_url''))"
proof -
  let ?v = "dict_get g (ascii ''game_name'')"
  consider (blank) "\<not> truthy ?v \<or> (\<exists>s. ?v = JStr s \<and> list_all (isspace rt) s)"
    | (named) s where "?v = JStr s" "\<not> list_all (isspace rt) s"
    | (other) "truthy ?v" "\<forall>s. ?v \<noteq> JStr s"
    by blast
  then show ?thesis
  proof cases
    case blank
    from fill_game_icon_blank[OF blank, of fs year] assms
    show ?thesis by (auto simp: dict_get_set_same placeholder_icon_ok)
  next
    case named
    let ?r = "find_image_for rt fs year (slugify rt (Some (str_strip rt s)))"
    note n = fill_game_icon_named[OF named, of fs year]
    show ?thesis
    proof (cases ?r)
      case (Inl e)
      with n assms show ?thesis by simp
    next
      case (Inr r)
      show ?thesis
      proof (cases r)
        case None
        with Inr n assms show ?thesis
          by (auto simp: dict_get_set_same placeholder_icon_ok)
      next
        case (Some found)
        from find_image_for_icon_ok[OF slugify_no_slash Inr[unfolded Some]]
        have "icon_ok fs year (JStr found)" .
        with Some Inr n assms show ?thesis by (auto simp: dict_get_set_same)
      qed
    qed
  next
    case other
    with assms show ?thesis by (simp add: fill_game_icon_non_text)
  qed
qed

text \<open>
  C4: when the driver has processed the data of a file, the game objects it visited
  (the winners and the nominees that are dicts) are the visited game objects of the
  input, each one filled, and every one of them has an \<open>icon_url\<close> that is a
  non-empty string: the placeholder, or \<open>img/<year>/<file>\<close> for a file that exists
  in the directory of the year. The \<open>icon_url\<close> before plays no part.
\<close>

theorem visited_icons_ok:
  assumes "process_data rt fs data = Inr (data', changed)"
  shows "\<exists>d year. data = JDict d \<and> py_int rt (dict_get d (ascii ''year'')) = Inr year
     \<and> visited_games data' = map (filled rt fs year) (visited_games data)
     \<and> (\<forall>g \<in> set (visited_games data'). icon_ok fs year (dict_get g (ascii ''icon_url'')))"
proof -
  from process_data_Inr[OF assms] obtain d year where
    d: "data = JDict d" and y: "py_int rt (dict_get d (ascii ''year'')) = Inr year"
    and v: "visited_games data' = map (filled rt fs year) (visited_games data)"
    and ok: "\<forall>g \<in> set (visited_games data). \<exists>g'. fill_game_icon rt fs year g = Inr g'"
    by blast
  have "icon_ok fs year (dict_get g' (ascii ''icon_url''))" if "g' \<in> set (visited_games data')" for g'
  proof -
    from that v obtain g where g: "g \<in> set (visited_games data)" "g' = filled rt fs year g" by auto
    from ok g(1) obtain h where h: "fill_game_icon rt fs year g = Inr h" by blast
    with g(2) have "g' = h" by (simp add: filled_def)
    with fill_icon_ok[OF h] show ?thesis by simp
  qed
  with d y v show ?thesis by blast
qed

text \<open>
  C8: in the loop over the nominees of an award, an entry that is not a dict raises
  nothing (every error of the loop is the error of the record filler on an entry
  that is a dict) and is left as it is; when the record filler succeeds on the
  entries that are dicts, the loop returns the whole list with exactly these filled,
  whatever stands between them.
\<close>

theorem visit_nominees_skips:
  "(\<forall>e. visit_nominees rt fs year noms changed = Inl e
        \<longrightarrow> (\<exists>d \<in> set (dicts_of noms). fill_game_icon rt fs year d = Inl e))
   \<and> ((\<forall>d \<in> set (dicts_of noms). \<exists>d'. fill_game_icon rt fs year d = Inr d')
        \<longrightarrow> visit_nominees rt fs year noms changed
             = Inr (map (fill_entry rt fs year) noms,
                    changed \<or> (\<exists>d \<in> set (dicts_of noms). icon_changes rt fs year d)))
   \<and> (\<forall>x \<in> set noms. (\<forall>d. x \<noteq> JDict d) \<longrightarrow> fill_entry rt fs year x = x)"
proof -
  have a: "\<exists>d \<in> set (dicts_of noms). fill_game_icon rt fs year d = Inl e"
    if "visit_nominees rt fs year noms changed = Inl e" for e
    using that by (rule visit_nominees_Inl)
  have b: "visit_nominees rt fs year noms changed
             = Inr (map (fill_entry rt fs year) noms,
                    changed \<or> (\<exists>d \<in> set (dicts_of noms). icon_changes rt fs year d))"
    if ok: "\<forall>d \<in> set (dicts_of noms). \<exists>d'. fill_game_icon rt fs year d = Inr d'"
  proof (cases "visit_nominees rt fs year noms changed")
    case (Inl e)
    from a[OF Inl] ok show ?thesis by auto
  next
    case (Inr p)
    obtain noms' changed' where p: "p = (noms', changed')" by (cases p)
    from visit_nominees_Inr[OF Inr[unfolded p]] show ?thesis unfolding Inr p by simp
  qed
  have c: "fill_entry rt fs year x = x" if "\<forall>d. x \<noteq> JDict d" for x
    using that by (cases x) (simp_all add: fill_entry_def)
  from a b c show ?thesis by blast
qed

theorem visit_nominees_skips_witness:
  "visit_nominees test_rt test_fs 2023
      [JDict [(ascii ''game_name'', JStr (ascii ''Tom & Jerry'')),
              (ascii ''icon_url'', JStr (ascii ''img/*''))],
       JStr (ascii ''n/a''),
       JInt 7,
       JDict [(ascii ''game_name'', JStr (ascii '' ''))]] False
    = Inr ([JDict [(ascii ''game_name'', JStr (ascii ''Tom & Jerry'')),
                   (ascii ''icon_url'', JStr (ascii ''img/*''))],
            JStr (ascii ''n/a''),
            JInt 7,
            JDict [(ascii ''game_name'', JStr (ascii '' '')),
                   (ascii ''icon_url'', JStr (ascii ''img/*''))]], True)
   \<and> fill_entry test_rt test_fs 2023 (JStr (ascii ''n/a'')) = JStr (ascii ''n/a'')
   \<and> fill_entry test_rt test_fs 2023 (JInt 7) = JInt 7"
proof -
  let ?noms = "[JDict [(ascii ''game_name'', JStr (ascii ''Tom & Jerry'')),
              (ascii ''icon_url'', JStr (ascii ''img/*''))],
       JStr (ascii ''n/a''),
       JInt 7,
       JDict [(ascii ''game_name'', JStr (ascii '' ''))]]"
  have f1: "fill_game_icon test_rt test_fs 2023
       [(ascii ''game_name'', JStr (ascii ''Tom & Jerry'')), (ascii ''icon_url'', JStr (ascii ''img/*''))]
     = Inr [(ascii ''game_name'', JStr (ascii ''Tom & Jerry'')), (ascii ''icon_url'', JStr (ascii ''img/*''))]"
    by code_simp
  have f2: "fill_game_icon test_rt test_fs 2023 [(ascii ''game_name'', JStr (ascii '' ''))]
     = Inr [(ascii ''game_name'', JStr (ascii '' '')), (ascii ''icon_url'', JStr (ascii ''img/*''))]"
    by code_simp
  have h: "\<forall>d \<in> set (dicts_of ?noms). \<exists>d'. fill_game_icon test_rt test_fs 2023 d = Inr d'"
    using f1 f2 by simp
  have r: "(map (fill_entry test_rt test_fs 2023) ?noms,
            False \<or> (\<exists>d \<in> set (dicts_of ?noms). icon_changes test_rt test_fs 2023 d))
     = ([JDict [(ascii ''game_name'', JStr (ascii ''Tom & Jerry'')),
                   (ascii ''icon_url'', JStr (ascii ''img/*''))],
            JStr (ascii ''n/a''),
            JInt 7,
            JDict [(ascii ''game_name'', JStr (ascii '' '')),
                   (ascii ''icon_url'', JStr (ascii ''img/*''))]], True)"
    by code_simp
  note w = visit_nominees_skips[where rt=test_rt and fs=test_fs and year=2023
      and noms="?noms" and changed=False]
  from w h have "visit_nominees test_rt test_fs 2023 ?noms False
     = Inr (map (fill_entry test_rt test_fs 2023) ?noms,
            False \<or> (\<exists>d \<in> set (dicts_of ?noms). icon_changes test_rt test_fs 2023 d))"
    by blast
  moreover from w have "fill_entry test_rt test_fs 2023 (JStr (ascii ''n/a'')) = JStr (ascii ''n/a'')"
    "fill_entry test_rt test_fs 2023 (JInt 7) = JInt 7"
    by simp_all
  ultimately show ?thesis unfolding r by simp
qed

text \<open>
  C10: when the winner of an award is present and not a dict, the winner block does
  nothing: every error of the award comes from a nominee, the award afterwards has
  the same winner, with no \<open>icon_url\<close> assigned, and \<open>changed\<close> afterwards is
  \<open>changed\<close> before or a change among the nominees.
\<close>

theorem visit_award_skips_winner:
  assumes "map_of a (ascii ''winner'') = Some w" "\<forall>d. w \<noteq> JDict d"
  shows "visit_winner rt fs year a changed = Inr (a, changed)
     \<and> (\<forall>e. visit_award rt fs year (JDict a) changed = Inl e
           \<longrightarrow> (\<exists>g \<in> set (dicts_of (nominee_entries a)). fill_game_icon rt fs year g = Inl e))
     \<and> (\<forall>award' changed'. visit_award rt fs year (JDict a) changed = Inr (award', changed')
           \<longrightarrow> (\<exists>a'. award' = JDict a' \<and> map_of a' (ascii ''winner'') = Some w)
               \<and> changed' = (changed \<or> (\<exists>g \<in> set (dicts_of (nominee_entries a)).
                                           icon_changes rt fs year g)))"
proof -
  have g: "dict_get a (ascii ''winner'') = w"
    using assms(1) by (simp add: dict_get_def dict_get_default_def)
  have wg: "winner_games a = []"
    using assms(2) unfolding winner_games_def g by (cases w) simp_all
  have w: "visit_winner rt fs year a changed = Inr (a, changed)"
    using assms(2) unfolding visit_winner_def g by (cases w) simp_all
  have ag: "award_games (JDict a) = dicts_of (nominee_entries a)"
    by (simp add: award_games_eq wg)
  have e: "\<exists>g \<in> set (dicts_of (nominee_entries a)). fill_game_icon rt fs year g = Inl e"
    if "visit_award rt fs year (JDict a) changed = Inl e" for e
    using visit_award_Inl[OF that] unfolding ag by simp
  have r: "(\<exists>a'. award' = JDict a' \<and> map_of a' (ascii ''winner'') = Some w)
       \<and> changed' = (changed \<or> (\<exists>g \<in> set (dicts_of (nominee_entries a)). icon_changes rt fs year g))"
    if ok: "visit_award rt fs year (JDict a) changed = Inr (award', changed')" for award' changed'
  proof -
    from visit_award_Inr[OF ok] have c: "changed' = (changed \<or> (\<exists>g \<in> set (dicts_of (nominee_entries a)). icon_changes rt fs year g))"
      unfolding ag by simp
    have "award' = JDict a \<or> (\<exists>x. award' = JDict (dict_set a (ascii ''nominees'') x))"
      using ok by (auto simp: visit_award_def w split: json.splits sum.splits if_splits)
    moreover have "map_of (dict_set a (ascii ''nominees'') x) (ascii ''winner'') = Some w" for x
      using assms(1) by (simp add: dict_set_def update_conv' winner_nominees_keys)
    ultimately show ?thesis using c assms(1) by auto
  qed
  from w e r show ?thesis by blast
qed

theorem visit_award_skips_winner_witness:
  "map_of [(ascii ''winner'', JNull),
           (ascii ''nominees'', JList [JDict [(ascii ''icon_url'', JStr (ascii ''img/*''))]])]
      (ascii ''winner'') = Some JNull
   \<and> visit_winner test_rt test_fs 2024
       [(ascii ''winner'', JNull),
        (ascii ''nominees'', JList [JDict [(ascii ''icon_url'', JStr (ascii ''img/*''))]])] False
      = Inr ([(ascii ''winner'', JNull),
              (ascii ''nominees'', JList [JDict [(ascii ''icon_url'', JStr (ascii ''img/*''))]])], False)
   \<and> visit_award test_rt test_fs 2024
       (JDict [(ascii ''winner'', JNull),
               (ascii ''nominees'', JList [JDict [(ascii ''icon_url'', JStr (ascii ''img/*''))]])]) False
      = Inr (JDict [(ascii ''winner'', JNull),
               (ascii ''nominees'', JList [JDict [(ascii ''icon_url'', JStr (ascii ''img/*''))]])], False)"
proof -
  let ?a = "[(ascii ''winner'', JNull),
           (ascii ''nominees'', JList [JDict [(ascii ''icon_url'', JStr (ascii ''img/*''))]])]"
  have m: "map_of ?a (ascii ''winner'') = Some JNull" by simp
  have n: "\<forall>d. JNull \<noteq> JDict d" by simp
  have e: "visit_award test_rt test_fs 2024 (JDict ?a) False = Inr (JDict ?a, False)" by code_simp
  from visit_award_skips_winner[OF m n, of test_rt test_fs 2024 False]
  have "visit_winner test_rt test_fs 2024 ?a False = Inr (?a, False)" by blast
  with m e show ?thesis by simp
qed

lemma process_data_changed:
  assumes "process_data rt fs data = Inr (data', changed)"
  shows "changed = doc_changed rt fs data"
proof -
  from process_data_Inr[OF assms] obtain d year where
    "data = JDict d" "py_int rt (dict_get d (ascii ''year'')) = Inr year"
    "changed = (\<exists>g \<in> set (visited_games data). icon_changes rt fs year g)"
    by blast
  then show ?thesis by (simp add: doc_changed_def)
qed

lemma py_print_frame:
  "py_print io line st = (st', r) \<Longrightarrow>
     disk st' = disk st \<and> writes st' = writes st \<and> changed_files st' = changed_files st"
  by (auto simp: py_print_def split: option.splits)

text \<open>
  The body of the loop when it raises nothing: the file was read and parsed, the
  data processed, and, when something changed, dumped, written and counted.
\<close>

lemma process_file_None:
  assumes "process_file rt fs io fp st = (st', None)"
  shows "\<exists>t data data'. disk st fp = Text t \<and> json_loads rt t = Inr data
     \<and> process_data rt fs data = Inr (data', doc_changed rt fs data)
     \<and> (if doc_changed rt fs data
        then \<exists>dump. json_dumps rt data' = Inr dump \<and> write_text io fp dump = None
               \<and> disk st' = (disk st)(fp := Text dump)
               \<and> writes st' = writes st @ [(fp, dump)]
               \<and> changed_files st' = changed_files st + 1
        else disk st' = disk st \<and> writes st' = writes st
               \<and> changed_files st' = changed_files st)"
proof -
  from assms obtain t where t: "disk st fp = Text t"
    by (cases "disk st fp") (simp_all add: process_file_def)
  from assms t obtain data where l: "json_loads rt t = Inr data"
    by (cases "json_loads rt t") (simp_all add: process_file_def)
  from assms t l obtain data' changed where p: "process_data rt fs data = Inr (data', changed)"
    by (cases "process_data rt fs data") (auto simp: process_file_def)
  from p process_data_changed[OF p]
  have p': "process_data rt fs data = Inr (data', doc_changed rt fs data)" by simp
  show ?thesis
  proof (cases "doc_changed rt fs data")
    case True
    from assms t l p' True obtain dump where d: "json_dumps rt data' = Inr dump"
      by (cases "json_dumps rt data'") (simp_all add: process_file_def)
    from assms t l p' True d have w: "write_text io fp dump = None"
      by (cases "write_text io fp dump") (auto simp: process_file_def)
    from assms t l p' True d w
    have "py_print io (ascii ''[OK] Updated icons in '' @ fp)
            (st\<lparr>disk := (disk st)(fp := Text dump), writes := writes st @ [(fp, dump)],
                changed_files := changed_files st + 1\<rparr>) = (st', None)"
      by (simp add: process_file_def)
    from py_print_frame[OF this] have
      "disk st' = (disk st)(fp := Text dump)" "writes st' = writes st @ [(fp, dump)]"
      "changed_files st' = changed_files st + 1"
      by simp_all
    with t l p' True d w show ?thesis by auto
  next
    case False
    from assms t l p' False
    have "py_print io (ascii ''[SKIP] No changes for '' @ fp) st = (st', None)"
      by (simp add: process_file_def)
    from py_print_frame[OF this] t l p' False show ?thesis by auto
  qed
qed

text \<open>
  The body of the loop, however it ends: it touches no other file than its own, and
  the counter grows with the writes that returned.
\<close>

lemma process_file_frame:
  assumes "process_file rt fs io fp st = (st', r)"
  shows "(\<forall>f. f \<noteq> fp \<longrightarrow> disk st' f = disk st f)
     \<and> (\<exists>ws. writes st' = writes st @ ws \<and> fst ` set ws \<subseteq> {fp}
             \<and> changed_files st' = changed_files st + length ws)"
proof (cases "disk st fp")
  case (Unreadable e)
  with assms show ?thesis by (simp add: process_file_def)
next
  case (Text t)
  show ?thesis
  proof (cases "json_loads rt t")
    case (Inl e)
    with assms Text show ?thesis by (simp add: process_file_def)
  next
    case l: (Inr data)
    show ?thesis
    proof (cases "process_data rt fs data")
      case (Inl e)
      with assms Text l show ?thesis by (simp add: process_file_def)
    next
      case (Inr q)
      obtain data' changed where q: "q = (data', changed)" by (cases q)
      note p = Inr[unfolded q]
      show ?thesis
      proof (cases changed)
        case False
        with assms Text l p
        have "py_print io (ascii ''[SKIP] No changes for '' @ fp) st = (st', r)"
          by (simp add: process_file_def)
        from py_print_frame[OF this] show ?thesis by simp
      next
        case True
        show ?thesis
        proof (cases "json_dumps rt data'")
          case (Inl e)
          with assms Text l p True show ?thesis by (simp add: process_file_def)
        next
          case d: (Inr dump)
          show ?thesis
          proof (cases "write_text io fp dump")
            case (Some el)
            obtain e left where el: "el = (e, left)" by (cases el)
            from assms Text l p True d Some el
            have "st' = st\<lparr>disk := (disk st)(fp := left)\<rparr>"
              by (simp add: process_file_def)
            then show ?thesis by simp
          next
            case None
            with assms Text l p True d
            have "py_print io (ascii ''[OK] Updated icons in '' @ fp)
              (st\<lparr>disk := (disk st)(fp := Text dump), writes := writes st @ [(fp, dump)],
                  changed_files := changed_files st + 1\<rparr>) = (st', r)"
              by (simp add: process_file_def)
            from py_print_frame[OF this] have
              "disk st' = (disk st)(fp := Text dump)" "writes st' = writes st @ [(fp, dump)]"
              "changed_files st' = changed_files st + 1"
              by simp_all
            then show ?thesis by simp
          qed
        qed
      qed
    qed
  qed
qed

lemma process_files_step:
  assumes "process_files rt fs io (fp # files) st = (st', r)"
  shows "\<exists>st1 r1. process_file rt fs io fp st = (st1, r1)
     \<and> (r1 = None \<longrightarrow> process_files rt fs io files st1 = (st', r))
     \<and> (r1 \<noteq> None \<longrightarrow> st' = st1)"
proof -
  obtain st1 r1 where s: "process_file rt fs io fp st = (st1, r1)"
    by (cases "process_file rt fs io fp st")
  with assms show ?thesis by (cases r1) auto
qed

lemma process_files_writes:
  "process_files rt fs io files st = (st', r) \<Longrightarrow>
     (\<forall>f. f \<notin> set files \<longrightarrow> disk st' f = disk st f)
     \<and> (\<exists>ws. writes st' = writes st @ ws \<and> fst ` set ws \<subseteq> set files
            \<and> changed_files st' = changed_files st + length ws)"
proof (induction files arbitrary: st)
  case Nil
  then show ?case by simp
next
  case (Cons fp files)
  from process_files_step[OF Cons.prems] obtain st1 r1 where
    s: "process_file rt fs io fp st = (st1, r1)"
    and go: "r1 = None \<Longrightarrow> process_files rt fs io files st1 = (st', r)"
    and stop: "r1 \<noteq> None \<Longrightarrow> st' = st1"
    by blast
  from process_file_frame[OF s] obtain w1 where
    d1: "\<forall>f. f \<noteq> fp \<longrightarrow> disk st1 f = disk st f"
    and w1: "writes st1 = writes st @ w1" "fst ` set w1 \<subseteq> {fp}"
      "changed_files st1 = changed_files st + length w1"
    by blast
  show ?case
  proof (cases r1)
    case (Some e)
    then have e: "st' = st1" using stop by simp
    have "fst ` set w1 \<subseteq> set (fp # files)" using w1(2) by auto
    with d1 w1 show ?thesis unfolding e by auto
  next
    case None
    from Cons.IH[OF go[OF None]] obtain ws where
      d: "\<forall>f. f \<notin> set files \<longrightarrow> disk st' f = disk st1 f"
      and ws: "writes st' = writes st1 @ ws" "fst ` set ws \<subseteq> set files"
        "changed_files st' = changed_files st1 + length ws"
      by blast
    from d d1 have "\<forall>f. f \<notin> set (fp # files) \<longrightarrow> disk st' f = disk st f" by simp
    moreover have "writes st' = writes st @ (w1 @ ws)" using w1 ws by simp
    moreover have "fst ` set (w1 @ ws) \<subseteq> set (fp # files)" using w1 ws by auto
    moreover have "changed_files st' = changed_files st + length (w1 @ ws)" using w1 ws by simp
    ultimately show ?thesis by blast
  qed
qed


lemma process_files_append:
  "process_files rt fs io pre st = (st1, None) \<Longrightarrow>
     process_files rt fs io (pre @ rest) st = process_files rt fs io rest st1"
proof (induction pre arbitrary: st)
  case Nil
  then show ?case by simp
next
  case (Cons fp pre)
  from process_files_step[OF Cons.prems] obtain st0 r0 where
    s: "process_file rt fs io fp st = (st0, r0)"
    and go: "r0 = None \<Longrightarrow> process_files rt fs io pre st0 = (st1, None)"
    by blast
  have n: "r0 = None" using Cons.prems s by (cases r0) simp_all
  from Cons.IH[OF go[OF n]] s n show ?case by simp
qed


text \<open>
  What \<open>main\<close> adds to the loop over the files is the last line printed.
\<close>

lemma main_after_files:
  assumes "main rt fs io files disk0 = (st', r)" "fs (path_of JSON_DIR) = Inr True"
    and "files \<noteq> []"
    and "process_files rt fs io files
           \<lparr>disk = disk0, writes = [], stdout = [], changed_files = 0\<rparr> = (st3, r3)"
  shows "disk st' = disk st3 \<and> writes st' = writes st3 \<and> changed_files st' = changed_files st3"
proof (cases r3)
  case (Some e)
  with assms show ?thesis by (simp add: main_def Let_def)
next
  case None
  with assms have "py_print io
       ([10] @ ascii ''Done. Updated '' @ str_int (int (changed_files st3))
        @ ascii ''/'' @ str_int (int (length files)) @ ascii '' files.'') st3 = (st', r)"
    by (simp add: main_def Let_def)
  then show ?thesis by (rule py_print_frame)
qed

text \<open>
  C5, as amended: in a run on files of distinct names, for every file that the run
  reaches (no file before it raised) and on which the body of the loop raises
  nothing (reading, parsing, the year, the awards, and after a change
  \<open>json.dumps\<close>, \<open>write_text\<close> and \<open>print\<close>), the file is written if and only if the
  \<open>icon_url\<close> of at least one of its visited game objects changed: then it is
  written once, its content is the dump of the processed data, and it is counted in
  \<open>changed_files\<close> (which is the number of writes that returned); otherwise it is
  not written and its content is what it was. This holds whether or not a later
  file, or the last line printed, ends the run with an error.
\<close>

theorem file_rewritten_iff_changed:
  assumes run: "main rt fs io (pre @ fp # rest) disk0 = (st', r)"
    and dir: "fs (path_of JSON_DIR) = Inr True"
    and dist: "distinct (pre @ fp # rest)"
    and reach: "process_files rt fs io pre
                  \<lparr>disk = disk0, writes = [], stdout = [], changed_files = 0\<rparr> = (st1, None)"
    and step: "process_file rt fs io fp st1 = (st2, None)"
  shows "\<exists>t data data'.
       disk0 fp = Text t \<and> json_loads rt t = Inr data
     \<and> process_data rt fs data = Inr (data', doc_changed rt fs data)
     \<and> (fp \<in> fst ` set (writes st')) = doc_changed rt fs data
     \<and> (doc_changed rt fs data \<longrightarrow>
          (\<exists>dump. json_dumps rt data' = Inr dump \<and> write_text io fp dump = None
             \<and> filter (\<lambda>w. fst w = fp) (writes st') = [(fp, dump)]
             \<and> disk st' fp = Text dump))
     \<and> (\<not> doc_changed rt fs data \<longrightarrow>
          filter (\<lambda>w. fst w = fp) (writes st') = [] \<and> disk st' fp = disk0 fp)
     \<and> changed_files st' = length (writes st')"
proof -
  let ?st = "\<lparr>disk = disk0, writes = [], stdout = [], changed_files = 0\<rparr>"
  from dist have np: "fp \<notin> set pre" and nr: "fp \<notin> set rest" by auto
  from process_files_writes[OF reach] np obtain w1 where
    d1: "disk st1 fp = disk0 fp"
    and w1: "writes st1 = w1" "fst ` set w1 \<subseteq> set pre" "changed_files st1 = length w1"
    by auto
  from process_file_None[OF step] obtain t data data' where
    t: "disk st1 fp = Text t" and l: "json_loads rt t = Inr data"
    and p: "process_data rt fs data = Inr (data', doc_changed rt fs data)"
    and s2: "if doc_changed rt fs data
        then \<exists>dump. json_dumps rt data' = Inr dump \<and> write_text io fp dump = None
               \<and> disk st2 = (disk st1)(fp := Text dump)
               \<and> writes st2 = writes st1 @ [(fp, dump)]
               \<and> changed_files st2 = changed_files st1 + 1
        else disk st2 = disk st1 \<and> writes st2 = writes st1
               \<and> changed_files st2 = changed_files st1"
    by blast
  obtain st3 r3 where rest: "process_files rt fs io rest st2 = (st3, r3)"
    by (cases "process_files rt fs io rest st2")
  have all: "process_files rt fs io (pre @ fp # rest) ?st = (st3, r3)"
    using process_files_append[OF reach, of "fp # rest"] step rest by simp
  from main_after_files[OF run dir _ all] have e: "disk st' = disk st3" "writes st' = writes st3"
    "changed_files st' = changed_files st3"
    by simp_all
  from process_files_writes[OF rest] nr obtain w3 where
    d3: "disk st3 fp = disk st2 fp"
    and w3: "writes st3 = writes st2 @ w3" "fst ` set w3 \<subseteq> set rest"
      "changed_files st3 = changed_files st2 + length w3"
    by blast
  have n1: "filter (\<lambda>w. fst w = fp) w1 = []" using w1(2) np by (auto simp: filter_empty_conv)
  have n3: "filter (\<lambda>w. fst w = fp) w3 = []" using w3(2) nr by (auto simp: filter_empty_conv)
  have m: "(fp \<in> fst ` set (writes st')) = (filter (\<lambda>w. fst w = fp) (writes st') \<noteq> [])"
    by (auto simp: filter_empty_conv)
  have c: "doc_changed rt fs data \<longrightarrow>
          (\<exists>dump. json_dumps rt data' = Inr dump \<and> write_text io fp dump = None
             \<and> filter (\<lambda>w. fst w = fp) (writes st') = [(fp, dump)]
             \<and> disk st' fp = Text dump)"
  proof
    assume ch: "doc_changed rt fs data"
    with s2 obtain dump where d: "json_dumps rt data' = Inr dump" "write_text io fp dump = None"
      and s: "disk st2 = (disk st1)(fp := Text dump)" "writes st2 = writes st1 @ [(fp, dump)]"
      by auto
    have "filter (\<lambda>w. fst w = fp) (writes st') = [(fp, dump)]"
      unfolding e w3 s using n1 n3 w1(1) by simp
    moreover have "disk st' fp = Text dump" unfolding e d3 s by simp
    ultimately show "\<exists>dump. json_dumps rt data' = Inr dump \<and> write_text io fp dump = None
             \<and> filter (\<lambda>w. fst w = fp) (writes st') = [(fp, dump)]
             \<and> disk st' fp = Text dump"
      using d by blast
  qed
  have u: "\<not> doc_changed rt fs data \<longrightarrow>
          filter (\<lambda>w. fst w = fp) (writes st') = [] \<and> disk st' fp = disk0 fp"
  proof
    assume "\<not> doc_changed rt fs data"
    with s2 have s: "disk st2 = disk st1" "writes st2 = writes st1" by simp_all
    have "filter (\<lambda>w. fst w = fp) (writes st') = []"
      unfolding e w3 s using n1 n3 w1(1) by simp
    moreover have "disk st' fp = disk0 fp" unfolding e d3 s d1 by simp
    ultimately show "filter (\<lambda>w. fst w = fp) (writes st') = [] \<and> disk st' fp = disk0 fp" by simp
  qed
  have i: "(fp \<in> fst ` set (writes st')) = doc_changed rt fs data"
    unfolding m using c u by (cases "doc_changed rt fs data") auto
  have n: "changed_files st' = length (writes st')"
  proof (cases "doc_changed rt fs data")
    case True
    with s2 obtain dump where "writes st2 = writes st1 @ [(fp, dump)]"
      "changed_files st2 = changed_files st1 + 1" by auto
    then show ?thesis unfolding e w3 using w1 by simp
  next
    case False
    with s2 have "writes st2 = writes st1" "changed_files st2 = changed_files st1" by simp_all
    then show ?thesis unfolding e w3 using w1 by simp
  qed
  from t[unfolded d1] l p i c u n show ?thesis by blast
qed


section \<open>The run on the concrete files\<close>


lemma doc_A_run: "process_data test_rt test_fs doc_A = Inr (doc_A_filled, True)"
  by code_simp

lemma doc_B_run: "process_data test_rt test_fs doc_B = Inr (doc_B, False)"
  by code_simp

lemma test_loads:
  "json_loads test_rt (ascii ''A'') = Inr doc_A"
  "json_loads test_rt (ascii ''B'') = Inr doc_B"
  "json_loads test_rt (ascii ''C'') = Inr doc_C"
  "json_loads test_rt (ascii ''D'') = Inr doc_D"
  "json_loads test_rt (ascii ''E'') = Inr doc_E"
  by (simp_all add: test_rt_def test_docs_def ascii_def)

lemma test_dumps: "json_dumps test_rt doc_A_filled = Inr (ascii ''A2'')"
  by code_simp

lemma test_names: "f23 \<noteq> f24" "f23 \<noteq> f25" "f24 \<noteq> f25" "f24 \<noteq> f23" "f25 \<noteq> f23" "f25 \<noteq> f24"
  by (simp_all add: f23_def f24_def f25_def ascii_def)

lemma test_data_dir: "test_fs (path_of JSON_DIR) = Inr True"
  by code_simp

lemma test_write: "write_text test_io fp (ascii ''A2'') = None"
  by (simp add: test_io_def ascii_def)

lemma test_print: "py_print test_io line st = (st\<lparr>stdout := stdout st @ [line]\<rparr>, None)"
  by (simp add: py_print_def test_io_def)

lemma process_file_A:
  assumes "disk st fp = Text (ascii ''A'')"
  shows "process_file test_rt test_fs test_io fp st =
     (st\<lparr>disk := (disk st)(fp := Text (ascii ''A2'')),
         writes := writes st @ [(fp, ascii ''A2'')],
         stdout := stdout st @ [ascii ''[OK] Updated icons in '' @ fp],
         changed_files := changed_files st + 1\<rparr>, None)"
  by (simp add: process_file_def assms test_loads doc_A_run test_dumps test_write test_print)

lemma process_file_B:
  assumes "disk st fp = Text (ascii ''B'')"
  shows "process_file test_rt test_fs test_io fp st =
     (st\<lparr>stdout := stdout st @ [ascii ''[SKIP] No changes for '' @ fp]\<rparr>, None)"
  by (simp add: process_file_def assms test_loads doc_B_run test_print)

lemma test_run:
  "process_files test_rt test_fs test_io [f23, f24]
      \<lparr>disk = test_disk, writes = [], stdout = [], changed_files = 0\<rparr>
   = (\<lparr>disk = test_disk(f23 := Text (ascii ''A2'')), writes = [(f23, ascii ''A2'')],
       stdout = [ascii ''[OK] Updated icons in '' @ f23, ascii ''[SKIP] No changes for '' @ f24],
       changed_files = 1\<rparr>, None)"
proof -
  let ?st = "\<lparr>disk = test_disk, writes = [], stdout = [], changed_files = 0\<rparr>"
  have a: "disk ?st f23 = Text (ascii ''A'')" by (simp add: test_disk_def)
  let ?st1 = "?st\<lparr>disk := (disk ?st)(f23 := Text (ascii ''A2'')),
             writes := writes ?st @ [(f23, ascii ''A2'')],
             stdout := stdout ?st @ [ascii ''[OK] Updated icons in '' @ f23],
             changed_files := changed_files ?st + 1\<rparr>"
  have b: "disk ?st1 f24 = Text (ascii ''B'')" by (simp add: test_disk_def test_names)
  show ?thesis
    by (simp only: process_files.simps process_file_A[OF a] process_file_B[OF b]
                   prod.case option.case) simp
qed

theorem visited_icons_ok_witness:
  "process_data test_rt test_fs doc_A = Inr (doc_A_filled, True)
   \<and> visited_games doc_A_filled =
       [[(ascii ''game_name'', JStr (ascii ''Red Dead Redemption 2'')),
         (ascii ''icon_url'', JStr (ascii ''img/2023/red_dead_redemption_2.png''))],
        [(ascii ''game_name'', JStr (ascii ''Tom & Jerry'')),
         (ascii ''icon_url'', JStr (ascii ''img/*''))],
        [(ascii ''game_name'', JStr (ascii '' '')),
         (ascii ''icon_url'', JStr (ascii ''img/*''))]]
   \<and> list_all (\<lambda>g. icon_ok test_fs 2023 (dict_get g (ascii ''icon_url'')))
        (visited_games doc_A_filled)"
proof -
  note e = doc_A_run
  have v: "visited_games doc_A_filled =
       [[(ascii ''game_name'', JStr (ascii ''Red Dead Redemption 2'')),
         (ascii ''icon_url'', JStr (ascii ''img/2023/red_dead_redemption_2.png''))],
        [(ascii ''game_name'', JStr (ascii ''Tom & Jerry'')),
         (ascii ''icon_url'', JStr (ascii ''img/*''))],
        [(ascii ''game_name'', JStr (ascii '' '')),
         (ascii ''icon_url'', JStr (ascii ''img/*''))]]"
    by code_simp
  from visited_icons_ok[OF e] obtain d year where
    d: "doc_A = JDict d" and y: "py_int test_rt (dict_get d (ascii ''year'')) = Inr year"
    and ok: "\<forall>g \<in> set (visited_games doc_A_filled). icon_ok test_fs year (dict_get g (ascii ''icon_url''))"
    by blast
  from d have "dict_get d (ascii ''year'') = JInt 2023"
    by (auto simp: doc_A_def dict_get_def dict_get_default_def)
  with y have "year = 2023" by simp
  with ok have "list_all (\<lambda>g. icon_ok test_fs 2023 (dict_get g (ascii ''icon_url'')))
        (visited_games doc_A_filled)" by (simp add: list_all_iff)
  with e v show ?thesis by simp
qed


lemma doc_D_run: "process_data test_rt test_fs doc_D = Inl AttributeError"
  by code_simp

lemma doc_E_run: "process_data test_rt test_fs doc_E = Inr (doc_E_filled, True)"
  by code_simp

lemma test_dumps_E: "json_dumps test_rt doc_E_filled = Inr (ascii ''E2 '' @ [lone_surrogate])"
  by code_simp

text \<open>
  C5 as stated fails for a file on which the driver raises after a change. In
  \<open>doc_D\<close> the winner of the first award is filled and its \<open>icon_url\<close> changes, then
  the second award, a null, raises \<open>AttributeError\<close>; the run ends and the file is not
  written. In \<open>doc_E\<close> the same winner is filled and a note is a lone surrogate
  (the JSON text has it escaped); the dump has the surrogate unescaped, and
  \<open>write_text\<close> raises \<open>UnicodeEncodeError\<close>: the file is left empty, which is not the
  dump, and it is not counted.
\<close>

theorem changed_file_not_rewritten:
  "json_loads test_rt (ascii ''D'') = Inr doc_D
   \<and> visited_games doc_D = [[(ascii ''game_name'', JStr (ascii ''Red Dead Redemption 2''))]]
   \<and> icon_changes test_rt test_fs 2023 [(ascii ''game_name'', JStr (ascii ''Red Dead Redemption 2''))]
   \<and> visit_award test_rt test_fs 2023
        (JDict [(ascii ''winner'',
                  JDict [(ascii ''game_name'', JStr (ascii ''Red Dead Redemption 2''))])]) False
       = Inr (JDict [(ascii ''winner'',
                       JDict [(ascii ''game_name'', JStr (ascii ''Red Dead Redemption 2'')),
                              (ascii ''icon_url'',
                                JStr (ascii ''img/2023/red_dead_redemption_2.png''))])], True)
   \<and> snd (main test_rt test_fs test_io [f23] test_disk_D) = Some AttributeError
   \<and> writes (fst (main test_rt test_fs test_io [f23] test_disk_D)) = []
   \<and> disk (fst (main test_rt test_fs test_io [f23] test_disk_D)) f23 = Text (ascii ''D'')
   \<and> changed_files (fst (main test_rt test_fs test_io [f23] test_disk_D)) = 0
   \<and> json_loads test_rt (ascii ''E'') = Inr doc_E
   \<and> visited_games doc_E = [[(ascii ''game_name'', JStr (ascii ''Red Dead Redemption 2''))]]
   \<and> process_data test_rt test_fs doc_E = Inr (doc_E_filled, True)
   \<and> json_dumps test_rt doc_E_filled = Inr (ascii ''E2 '' @ [lone_surrogate])
   \<and> snd (main test_rt test_fs test_io [f23] test_disk_E) = Some UnicodeEncodeError
   \<and> writes (fst (main test_rt test_fs test_io [f23] test_disk_E)) = []
   \<and> disk (fst (main test_rt test_fs test_io [f23] test_disk_E)) f23 = Text []
   \<and> changed_files (fst (main test_rt test_fs test_io [f23] test_disk_E)) = 0"
proof -
  let ?st = "\<lparr>disk = test_disk_D, writes = [], stdout = [], changed_files = 0\<rparr>"
  let ?stE = "\<lparr>disk = test_disk_E, writes = [], stdout = [], changed_files = 0\<rparr>"
  have v: "visited_games doc_D = [[(ascii ''game_name'', JStr (ascii ''Red Dead Redemption 2''))]]"
    by code_simp
  have i: "icon_changes test_rt test_fs 2023 [(ascii ''game_name'', JStr (ascii ''Red Dead Redemption 2''))]"
    by code_simp
  have a: "visit_award test_rt test_fs 2023
        (JDict [(ascii ''winner'',
                  JDict [(ascii ''game_name'', JStr (ascii ''Red Dead Redemption 2''))])]) False
       = Inr (JDict [(ascii ''winner'',
                       JDict [(ascii ''game_name'', JStr (ascii ''Red Dead Redemption 2'')),
                              (ascii ''icon_url'',
                                JStr (ascii ''img/2023/red_dead_redemption_2.png''))])], True)"
    by code_simp
  have p: "process_file test_rt test_fs test_io f23 ?st = (?st, Some AttributeError)"
    by (simp add: process_file_def test_disk_D_def test_loads doc_D_run)
  have m: "main test_rt test_fs test_io [f23] test_disk_D = (?st, Some AttributeError)"
    by (simp add: main_def test_data_dir p)
  have vE: "visited_games doc_E = [[(ascii ''game_name'', JStr (ascii ''Red Dead Redemption 2''))]]"
    by code_simp
  have wE: "write_text test_io f23 (ascii ''E2 '' @ [lone_surrogate])
      = Some (UnicodeEncodeError, Text [])"
    by (simp add: test_io_def lone_surrogate_def)
  have pE: "process_file test_rt test_fs test_io f23 ?stE
      = (?stE\<lparr>disk := (disk ?stE)(f23 := Text [])\<rparr>, Some UnicodeEncodeError)"
    by (simp add: process_file_def test_disk_E_def test_loads doc_E_run test_dumps_E wE)
  have mE: "main test_rt test_fs test_io [f23] test_disk_E
      = (?stE\<lparr>disk := (disk ?stE)(f23 := Text [])\<rparr>, Some UnicodeEncodeError)"
    by (simp add: main_def test_data_dir pE)
  show ?thesis unfolding m mE using test_loads(4,5) v i a vE doc_E_run test_dumps_E
    by (simp add: test_disk_D_def)
qed

theorem file_rewritten_iff_changed_witness:
  "main test_rt test_fs test_io [f23, f24] test_disk
     = (fst (main test_rt test_fs test_io [f23, f24] test_disk), None)
   \<and> test_fs (path_of JSON_DIR) = Inr True
   \<and> distinct [f23, f24]
   \<and> process_data test_rt test_fs doc_A = Inr (doc_A_filled, True)
   \<and> process_data test_rt test_fs doc_B = Inr (doc_B, False)
   \<and> doc_changed test_rt test_fs doc_A
   \<and> \<not> doc_changed test_rt test_fs doc_B
   \<and> writes (fst (main test_rt test_fs test_io [f23, f24] test_disk)) = [(f23, ascii ''A2'')]
   \<and> disk (fst (main test_rt test_fs test_io [f23, f24] test_disk)) f23 = Text (ascii ''A2'')
   \<and> disk (fst (main test_rt test_fs test_io [f23, f24] test_disk)) f24 = Text (ascii ''B'')
   \<and> changed_files (fst (main test_rt test_fs test_io [f23, f24] test_disk)) = 1"
proof -
  let ?m = "main test_rt test_fs test_io [f23, f24] test_disk"
  let ?st = "\<lparr>disk = test_disk, writes = [], stdout = [], changed_files = 0\<rparr>"
  have s: "snd ?m = None"
    by (simp add: main_def test_data_dir test_run test_print del: process_files.simps)
  then have e: "?m = (fst ?m, None)" by (metis prod.collapse)
  have d: "distinct [f23, f24]" by (simp add: test_names)
  have w: "writes (fst ?m) = [(f23, ascii ''A2'')]"
    by (simp add: main_def test_data_dir test_run test_print del: process_files.simps)
  have r0: "process_files test_rt test_fs test_io [] ?st = (?st, None)" by simp
  have a: "disk ?st f23 = Text (ascii ''A'')" by (simp add: test_disk_def)
  let ?st1 = "?st\<lparr>disk := (disk ?st)(f23 := Text (ascii ''A2'')),
             writes := writes ?st @ [(f23, ascii ''A2'')],
             stdout := stdout ?st @ [ascii ''[OK] Updated icons in '' @ f23],
             changed_files := changed_files ?st + 1\<rparr>"
  have r1: "process_files test_rt test_fs test_io [f23] ?st = (?st1, None)"
    by (simp only: process_files.simps process_file_A[OF a] prod.case option.case)
  have b: "disk ?st1 f24 = Text (ascii ''B'')" by (simp add: test_disk_def test_names)
  have t23: "test_disk f23 = Text (ascii ''A'')" by (simp add: test_disk_def)
  have t24: "test_disk f24 = Text (ascii ''B'')" by (simp add: test_disk_def test_names)
  have eA: "main test_rt test_fs test_io ([] @ f23 # [f24]) test_disk = (fst ?m, None)"
    using e by simp
  have eB: "main test_rt test_fs test_io ([f23] @ f24 # []) test_disk = (fst ?m, None)"
    using e by simp
  have dA: "distinct ([] @ f23 # [f24])" using d by simp
  have dB: "distinct ([f23] @ f24 # [])" using d by simp
  from file_rewritten_iff_changed[OF eA test_data_dir dA r0 process_file_A[OF a]]
  obtain data' where
    A: "process_data test_rt test_fs doc_A = Inr (data', doc_changed test_rt test_fs doc_A)"
      "doc_changed test_rt test_fs doc_A \<longrightarrow>
          (\<exists>dump. json_dumps test_rt data' = Inr dump
             \<and> disk (fst ?m) f23 = Text dump)"
      "changed_files (fst ?m) = length (writes (fst ?m))"
    unfolding t23 by (auto simp: test_loads)
  from A(1) doc_A_run have A1: "data' = doc_A_filled" "doc_changed test_rt test_fs doc_A"
    by simp_all
  from A(2) A1 have A2: "disk (fst ?m) f23 = Text (ascii ''A2'')"
    by (auto simp: test_dumps)
  from file_rewritten_iff_changed[OF eB test_data_dir dB r1 process_file_B[OF b]]
  obtain datb where
    B: "process_data test_rt test_fs doc_B = Inr (datb, doc_changed test_rt test_fs doc_B)"
      "\<not> doc_changed test_rt test_fs doc_B \<longrightarrow> disk (fst ?m) f24 = test_disk f24"
    unfolding t24 by (auto simp: test_loads)
  from B(1) doc_B_run have B1: "\<not> doc_changed test_rt test_fs doc_B" by simp
  with B(2) t24 have B2: "disk (fst ?m) f24 = Text (ascii ''B'')" by simp
  from A(3) w have n: "changed_files (fst ?m) = 1" by simp
  from e test_data_dir d doc_A_run doc_B_run A1(2) B1 w A2 B2 n show ?thesis by simp
qed

end
